theory Spec2Isabelle
  imports Main "HOL-Library.Word"
begin

section \<open>Chain tracker: data model\<close>

text \<open>
  The Go source works on \<open>int64\<close> block numbers and durations and on \<open>uint64\<close>
  configuration counters. Both are 64-bit words here: \<open>+\<close>, \<open>-\<close> and \<open>*\<close> wrap as
  in Go, signed comparisons are \<open><s\<close> and \<open>\<le>s\<close>, unsigned ones \<open><\<close> and \<open>\<le>\<close>,
  and a conversion between \<open>int64\<close> and \<open>uint64\<close> keeps the bits.
\<close>

type_synonym int64 = "64 word"
type_synonym uint64 = "64 word"

record BlockStore =
  Block :: int64
  Hash :: string

text \<open>
  Errors as values. \<open>FetcherError\<close> is whatever the remote chain fetcher reports
  (opaque to the tracker); the other constructors are the error returns of the source,
  two of them wrapping the error they were caused by.
\<close>

datatype error =
    FetcherError nat
  | ErrorFailedToFetchTooEarlyBlock
  | InvalidLatestBlock
  | CouldNotGetBlockData error
  | NotEnoughBlocksSaved
  | CouldNotFetchLatestBlockNum error
  | CouldNotFetchLatestBlockHash error
  | CriticalInitError error

text \<open>
  The \<open>ChainFetcher\<close> interface. The remote node is a state of type \<open>'r\<close> that every
  call may read and change, so that a remote whose answers change between two calls of
  one poll cycle is covered.
\<close>

record 'r ChainFetcher =
  FetchLatestBlockNum :: "'r \<Rightarrow> (error + int64) \<times> 'r"
  FetchBlockHashByNum :: "'r \<Rightarrow> int64 \<Rightarrow> (error + string) \<times> 'r"

text \<open>
  The fields of \<open>ChainTracker\<close> that the polling code reads or writes. The two
  callbacks are external functions; the tracker only tests them against \<open>nil\<close> and
  calls them, so a field says whether the callback is configured and the calls are
  collected in a trace of \<open>callback\<close> events. The field \<open>ticker\<close> is the period of
  the current ticker.
\<close>

record ChainTracker =
  blocksToSave :: uint64
  latestBlockNum :: int64
  blocksQueue :: "BlockStore list"
  forkCallback :: bool
  newLatestCallback :: bool
  serverBlockMemory :: uint64
  blockCheckpointDistance :: uint64
  blockCheckpoint :: uint64
  ticker :: int64

datatype callback =
    NewLatestCall int64 string
  | ForkCall int64

section \<open>Exponential backoff\<close>

definition BACKOFF_MAX_TIME :: int64 where
  "BACKOFF_MAX_TIME = 10 * (60 * 1000000000)"

definition exponentialBackoff :: "int64 \<Rightarrow> uint64 \<Rightarrow> int64" where
  "exponentialBackoff baseTime fails =
     (let fails = (if fails > 10 then 10 else fails);
          maxIncrease = BACKOFF_MAX_TIME;
          backoff = baseTime * push_bit (unat fails) 1
      in if maxIncrease <s backoff then maxIncrease else backoff)"

section \<open>Reading the tracker\<close>

definition getLatestBlockUnsafe :: "ChainTracker \<Rightarrow> BlockStore" where
  "getLatestBlockUnsafe cs =
     (if length (blocksQueue cs) = 0 then \<lparr>Block = 0, Hash = ''BAD-HASH''\<rparr>
      else blocksQueue cs ! (length (blocksQueue cs) - 1))"

definition GetLatestBlockNum :: "ChainTracker \<Rightarrow> int64" where
  "GetLatestBlockNum cs = latestBlockNum cs"

definition setLatestBlockNum :: "ChainTracker \<Rightarrow> int64 \<Rightarrow> ChainTracker" where
  "setLatestBlockNum cs v = cs\<lparr>latestBlockNum := v\<rparr>"

definition fetchLatestBlockNum :: "'r ChainFetcher \<Rightarrow> 'r \<Rightarrow> (error + int64) \<times> 'r" where
  "fetchLatestBlockNum cf r = FetchLatestBlockNum cf r"

definition fetchBlockHashByNum ::
  "'r ChainFetcher \<Rightarrow> ChainTracker \<Rightarrow> 'r \<Rightarrow> int64 \<Rightarrow> (error + string) \<times> 'r" where
  "fetchBlockHashByNum cf cs r blockNum =
     (if blockNum <s GetLatestBlockNum cs - serverBlockMemory cs
      then (Inl ErrorFailedToFetchTooEarlyBlock, r)
      else FetchBlockHashByNum cf r blockNum)"

section \<open>Go slices\<close>

text \<open>
  Indexing, slicing and \<open>make\<close> panic in Go when an index is out of range. A panic
  is the value \<open>None\<close> here, as is every other way of not returning. The tracker never
  slices its queue beyond the queue's length, so the bound checked for \<open>xs[lo:hi]\<close> is
  the length. \<open>make\<close> panics on a negative length and returns zero values otherwise
  (running out of memory is not modelled: the properties of a window are stated for
  sizes below \<open>2 ^ 62\<close>). The conversions \<open>int64(len(xs))\<close> and \<open>uint64(len(xs))\<close> are
  \<open>of_nat (length xs)\<close>.
\<close>

definition make_slice :: "int64 \<Rightarrow> BlockStore list option" where
  "make_slice n =
     (if n <s 0 then None else Some (replicate (nat (sint n)) \<lparr>Block = 0, Hash = []\<rparr>))"

definition index_slice :: "'a list \<Rightarrow> int64 \<Rightarrow> 'a option" where
  "index_slice xs i =
     (if 0 \<le>s i \<and> nat (sint i) < length xs then Some (xs ! nat (sint i)) else None)"

definition store_slice :: "'a list \<Rightarrow> int64 \<Rightarrow> 'a \<Rightarrow> 'a list option" where
  "store_slice xs i v =
     (if 0 \<le>s i \<and> nat (sint i) < length xs then Some (xs[nat (sint i) := v]) else None)"

definition slice_range :: "'a list \<Rightarrow> int64 \<Rightarrow> int64 \<Rightarrow> 'a list option" where
  "slice_range xs lo hi =
     (if 0 \<le>s lo \<and> lo \<le>s hi \<and> nat (sint hi) \<le> length xs
      then Some (take (nat (sint hi) - nat (sint lo)) (drop (nat (sint lo)) xs))
      else None)"

definition slice_from :: "'a list \<Rightarrow> int64 \<Rightarrow> 'a list option" where
  "slice_from xs lo =
     (if 0 \<le>s lo \<and> nat (sint lo) \<le> length xs then Some (drop (nat (sint lo)) xs) else None)"

section \<open>The window repairer\<close>

definition hashesOverlapIndexes ::
  "ChainTracker \<Rightarrow> int64 \<Rightarrow> int64 \<Rightarrow> int64 \<Rightarrow> string \<Rightarrow> (bool \<times> int64 \<times> int64 \<times> int64) option" where
  "hashesOverlapIndexes cs readIndexDiff newQueueIdx fetchedBlockNum newHashForBlock =
     (let savedBlocks = (of_nat (length (blocksQueue cs)) :: int64) in
      if savedBlocks \<le>s readIndexDiff then Some (False, 0, 0, 0)
      else
        let blocksQueueEnd = savedBlocks - 1 + readIndexDiff;
            blocksQueueIdx = blocksQueueEnd - newQueueIdx
        in if 0 <s blocksQueueIdx \<and> blocksQueueIdx \<le>s savedBlocks - 1 then
             (case index_slice (blocksQueue cs) blocksQueueIdx of
                None \<Rightarrow> None
              | Some existingBlockStore \<Rightarrow>
                  if Block existingBlockStore \<noteq> fetchedBlockNum then Some (False, 0, 0, 0)
                  else if Hash existingBlockStore = newHashForBlock then
                    (let overwriteElements = blocksQueueIdx + 1 in
                     if overwriteElements <s blocksToSave cs - 1 - newQueueIdx
                        \<or> overwriteElements <s readIndexDiff
                     then Some (False, 0, 0, 0)
                     else Some (True, readIndexDiff, overwriteElements,
                                overwriteElements - readIndexDiff))
                  else Some (False, 0, 0, 0))
           else Some (False, 0, 0, 0))"

lemma sint_succ: "(a :: int64) <s b \<Longrightarrow> sint (a + 1) = sint a + 1"
proof -
  assume "a <s b"
  then have "sint a < sint b" by (simp add: word_sless_alt)
  moreover have "sint b < 2 ^ 63" using sint_lt [of b] by simp
  moreover have "- (2 ^ 63) \<le> sint a" using sint_ge [of a] by simp
  ultimately have r: "- (2 ^ 63) \<le> sint a + 1" "sint a + 1 < 2 ^ 63" by simp_all
  have "sint (a + 1) = signed_take_bit 63 (sint a + 1)"
    by (simp add: sint_word_ariths)
  also have "\<dots> = sint a + 1" using r by (simp add: signed_take_bit_int_eq_self)
  finally show ?thesis .
qed

text \<open>
  The loop of \<open>readHashes\<close>. Its result is the value of the loop's variables when the
  loop is left: whether the last overlap test succeeded, the index \<open>idx\<close>, the three
  splice indexes and the new queue (a slice, so the caller sees what the loop stored).
\<close>

function readHashes_loop ::
  "'r ChainFetcher \<Rightarrow> ChainTracker \<Rightarrow> int64 \<Rightarrow> int64 \<Rightarrow> 'r \<Rightarrow> int64
     \<Rightarrow> int64 \<Rightarrow> int64 \<Rightarrow> int64 \<Rightarrow> BlockStore list
     \<Rightarrow> ((error + bool \<times> int64 \<times> int64 \<times> int64 \<times> int64 \<times> BlockStore list) \<times> 'r) option" where
  "readHashes_loop cf cs latestBlock readIndexDiff r idx
       blocksQueueStartIndex blocksQueueEndIndex newQueueStartIndex newBlocksQueue =
     (if idx <s blocksToSave cs then
        (let blockNumToFetch = latestBlock - idx in
         case fetchBlockHashByNum cf cs r blockNumToFetch of
           (Inl err, r') \<Rightarrow> Some (Inl (CouldNotGetBlockData err), r')
         | (Inr newHashForBlock, r') \<Rightarrow>
             (case hashesOverlapIndexes cs readIndexDiff idx blockNumToFetch newHashForBlock of
                None \<Rightarrow> None
              | Some (foundOverlap, startIndex, endIndex, newStartIndex) \<Rightarrow>
                  if foundOverlap
                  then Some (Inr (True, idx, startIndex, endIndex, newStartIndex, newBlocksQueue), r')
                  else
                    (case store_slice newBlocksQueue (blocksToSave cs - 1 - idx)
                            \<lparr>Block = blockNumToFetch, Hash = newHashForBlock\<rparr> of
                       None \<Rightarrow> None
                     | Some newBlocksQueue' \<Rightarrow>
                         readHashes_loop cf cs latestBlock readIndexDiff r' (idx + 1)
                           startIndex endIndex newStartIndex newBlocksQueue')))
      else Some (Inr (False, idx, blocksQueueStartIndex, blocksQueueEndIndex,
                      newQueueStartIndex, newBlocksQueue), r))"
  by pat_completeness auto
termination
  by (relation "measure (\<lambda>(cf, cs, latestBlock, readIndexDiff, r, idx, rest).
                    nat (sint (blocksToSave cs) - sint idx))")
     (simp_all add: word_sless_alt sint_succ)

declare readHashes_loop.simps [simp del]

definition readHashes ::
  "'r ChainFetcher \<Rightarrow> ChainTracker \<Rightarrow> int64 \<Rightarrow> 'r \<Rightarrow> int64 \<Rightarrow> int64 \<Rightarrow> int64 \<Rightarrow> int64
     \<Rightarrow> BlockStore list
     \<Rightarrow> ((error + int64 \<times> int64 \<times> int64 \<times> BlockStore list) \<times> 'r) option" where
  "readHashes cf cs latestBlock r blocksQueueStartIndex blocksQueueEndIndex newQueueStartIndex
       readIndexDiff newBlocksQueue =
     (case readHashes_loop cf cs latestBlock readIndexDiff r 0
             blocksQueueStartIndex blocksQueueEndIndex newQueueStartIndex newBlocksQueue of
        None \<Rightarrow> None
      | Some (Inl err, r') \<Rightarrow> Some (Inl err, r')
      | Some (Inr (foundOverlap, idx, startIndex, endIndex, newStartIndex, newBlocksQueue'), r') \<Rightarrow>
          Some (Inr (startIndex, endIndex, newStartIndex, newBlocksQueue'), r'))"

text \<open>
  \<open>replaceBlocksQueue\<close> returns \<open>blocksCopied\<close>, the new length of the queue and
  the hash of its last record, and the tracker it has written.
\<close>

definition replaceBlocksQueue ::
  "ChainTracker \<Rightarrow> int64 \<Rightarrow> int64 \<Rightarrow> int64 \<Rightarrow> int64 \<Rightarrow> BlockStore list \<Rightarrow> int64
     \<Rightarrow> ((int64 \<times> uint64 \<times> string) \<times> ChainTracker) option" where
  "replaceBlocksQueue cs latestBlock newQueueStartIndex blocksQueueStartIndex blocksQueueEndIndex
       newBlocksQueue blocksCopied =
     (let cs1 = setLatestBlockNum cs latestBlock in
      case (if 0 <s newQueueStartIndex then
              (case slice_range (blocksQueue cs1) blocksQueueStartIndex blocksQueueEndIndex of
                 None \<Rightarrow> None
               | Some kept \<Rightarrow>
                   (case slice_from newBlocksQueue newQueueStartIndex of
                      None \<Rightarrow> None
                    | Some fetched \<Rightarrow>
                        Some (cs1\<lparr>blocksQueue := kept @ fetched\<rparr>,
                              blocksQueueEndIndex - blocksQueueStartIndex)))
            else Some (cs1\<lparr>blocksQueue := newBlocksQueue\<rparr>, blocksCopied)) of
        None \<Rightarrow> None
      | Some (cs2, blocksCopied') \<Rightarrow>
          Some ((blocksCopied', of_nat (length (blocksQueue cs2)), Hash (getLatestBlockUnsafe cs2)),
                cs2))"

definition fetchAllPreviousBlocks ::
  "'r ChainFetcher \<Rightarrow> ChainTracker \<Rightarrow> 'r \<Rightarrow> int64 \<Rightarrow> ((error + string) \<times> ChainTracker \<times> 'r) option" where
  "fetchAllPreviousBlocks cf cs r latestBlock =
     (case make_slice (blocksToSave cs) of
        None \<Rightarrow> None
      | Some newBlocksQueue \<Rightarrow>
          (let currentLatestBlock = GetLatestBlockNum cs in
           if latestBlock <s currentLatestBlock then Some (Inl InvalidLatestBlock, cs, r)
           else
             (let readIndexDiff = latestBlock - currentLatestBlock in
              case readHashes cf cs latestBlock r 0 0 0 readIndexDiff newBlocksQueue of
                None \<Rightarrow> None
              | Some (Inl err, r') \<Rightarrow> Some (Inl err, cs, r')
              | Some (Inr (blocksQueueStartIndex, blocksQueueEndIndex, newQueueStartIndex,
                           newBlocksQueue'), r') \<Rightarrow>
                  (case replaceBlocksQueue cs latestBlock newQueueStartIndex blocksQueueStartIndex
                          blocksQueueEndIndex newBlocksQueue' (blocksToSave cs) of
                     None \<Rightarrow> None
                   | Some ((blocksCopied, blocksQueueLen, latestHash), cs') \<Rightarrow>
                       if blocksQueueLen < blocksToSave cs' then Some (Inl NotEnoughBlocksSaved, cs', r')
                       else if 1 <s readIndexDiff
                               \<or> blockCheckpoint cs' + blockCheckpointDistance cs' < latestBlock
                       then Some (Inr latestHash, cs'\<lparr>blockCheckpoint := latestBlock\<rparr>, r')
                       else Some (Inr latestHash, cs', r')))))"

text \<open>
  A sequence of repairs, one for each latest block number of the list, whatever each
  of them returns; \<open>None\<close> when one of them does not return.
\<close>

fun repairs :: "'r ChainFetcher \<Rightarrow> ChainTracker \<Rightarrow> 'r \<Rightarrow> int64 list \<Rightarrow> (ChainTracker \<times> 'r) option" where
  "repairs cf cs r [] = Some (cs, r)"
| "repairs cf cs r (latestBlock # rest) =
     (case fetchAllPreviousBlocks cf cs r latestBlock of
        None \<Rightarrow> None
      | Some (res, cs', r') \<Rightarrow> repairs cf cs' r' rest)"

section \<open>The fork detector\<close>

definition forkChanged ::
  "'r ChainFetcher \<Rightarrow> ChainTracker \<Rightarrow> 'r \<Rightarrow> int64 \<Rightarrow> (error + bool) \<times> 'r" where
  "forkChanged cf cs r newLatestBlock =
     (if newLatestBlock = GetLatestBlockNum cs then
        (case fetchBlockHashByNum cf cs r newLatestBlock of
           (Inl err, r') \<Rightarrow> (Inl err, r')
         | (Inr hash, r') \<Rightarrow>
             (let latestBlockSaved = getLatestBlockUnsafe cs
              in (Inr (Hash latestBlockSaved \<noteq> hash), r')))
      else
        (let latestBlockSaved = getLatestBlockUnsafe cs in
         case fetchBlockHashByNum cf cs r (Block latestBlockSaved) of
           (Inl err, r') \<Rightarrow> (Inl err, r')
         | (Inr prevHash, r') \<Rightarrow> (Inr (Hash latestBlockSaved \<noteq> prevHash), r')))"

definition gotNewBlock :: "ChainTracker \<Rightarrow> int64 \<Rightarrow> bool" where
  "gotNewBlock cs newLatestBlock = (GetLatestBlockNum cs <s newLatestBlock)"

section \<open>One poll cycle and its callbacks\<close>

text \<open>
  The loop \<open>for i := prev_latest + 1; i <= newLatestBlock; i++\<close> that calls the
  new-latest callback. The counter is an \<open>int64\<close>: when \<open>newLatestBlock\<close> is the
  largest \<open>int64\<close> the test never fails and the loop does not return, which is the
  value \<open>None\<close>.
\<close>

partial_function (option) newLatestCallback_loop ::
  "int64 \<Rightarrow> int64 \<Rightarrow> string \<Rightarrow> callback list \<Rightarrow> callback list option" where
  "newLatestCallback_loop i newLatestBlock latestHash calls =
     (if i \<le>s newLatestBlock
      then newLatestCallback_loop (i + 1) newLatestBlock latestHash
             (calls @ [NewLatestCall i latestHash])
      else Some calls)"

declare newLatestCallback_loop.simps [code]

text \<open>
  A poll cycle returns its error (\<open>None\<close> for \<open>nil\<close>), the callbacks it has called, in
  order, and the tracker and the remote it leaves.
\<close>

definition fetchAllPreviousBlocksIfNecessary ::
  "'r ChainFetcher \<Rightarrow> ChainTracker \<Rightarrow> 'r
     \<Rightarrow> (error option \<times> callback list \<times> ChainTracker \<times> 'r) option" where
  "fetchAllPreviousBlocksIfNecessary cf cs r =
     (case fetchLatestBlockNum cf r of
        (Inl err, r1) \<Rightarrow> Some (Some (CouldNotFetchLatestBlockNum err), [], cs, r1)
      | (Inr newLatestBlock, r1) \<Rightarrow>
          (let gotNew = gotNewBlock cs newLatestBlock in
           case forkChanged cf cs r1 newLatestBlock of
             (Inl err, r2) \<Rightarrow> Some (Some (CouldNotFetchLatestBlockHash err), [], cs, r2)
           | (Inr forked, r2) \<Rightarrow>
               if gotNew \<or> forked then
                 (let prev_latest = GetLatestBlockNum cs in
                  case fetchAllPreviousBlocks cf cs r2 newLatestBlock of
                    None \<Rightarrow> None
                  | Some (Inl err, cs', r3) \<Rightarrow> Some (Some err, [], cs', r3)
                  | Some (Inr latestHash, cs', r3) \<Rightarrow>
                      (case (if gotNew \<and> newLatestCallback cs'
                             then newLatestCallback_loop (prev_latest + 1) newLatestBlock latestHash []
                             else Some []) of
                         None \<Rightarrow> None
                       | Some calls \<Rightarrow>
                           Some (None,
                                 calls @ (if forked \<and> forkCallback cs' then [ForkCall newLatestBlock]
                                          else []),
                                 cs', r3)))
               else Some (None, [], cs, r2)))"

section \<open>Bootstrap\<close>

definition initRetriesCount :: nat where
  "initRetriesCount = 4"

text \<open>
  The two retry loops of \<open>fetchInitDataWithRetry\<close>,
  \<open>for idx := 0; idx < initRetriesCount && err != nil; idx++\<close>, by recursion on the
  number of iterations left; the last argument is the result of the previous attempt.
\<close>

fun fetchLatestBlockNum_retry ::
  "'r ChainFetcher \<Rightarrow> nat \<Rightarrow> (error + int64) \<times> 'r \<Rightarrow> (error + int64) \<times> 'r" where
  "fetchLatestBlockNum_retry cf 0 res = res"
| "fetchLatestBlockNum_retry cf (Suc k) (Inr newLatestBlock, r) = (Inr newLatestBlock, r)"
| "fetchLatestBlockNum_retry cf (Suc k) (Inl err, r) =
     fetchLatestBlockNum_retry cf k (fetchLatestBlockNum cf r)"

fun fetchAllPreviousBlocks_retry ::
  "'r ChainFetcher \<Rightarrow> int64 \<Rightarrow> nat \<Rightarrow> ((error + string) \<times> ChainTracker \<times> 'r) option
     \<Rightarrow> ((error + string) \<times> ChainTracker \<times> 'r) option" where
  "fetchAllPreviousBlocks_retry cf newLatestBlock k None = None"
| "fetchAllPreviousBlocks_retry cf newLatestBlock 0 (Some res) = Some res"
| "fetchAllPreviousBlocks_retry cf newLatestBlock (Suc k) (Some (Inr latestHash, cs, r)) =
     Some (Inr latestHash, cs, r)"
| "fetchAllPreviousBlocks_retry cf newLatestBlock (Suc k) (Some (Inl err, cs, r)) =
     fetchAllPreviousBlocks_retry cf newLatestBlock k (fetchAllPreviousBlocks cf cs r newLatestBlock)"

definition fetchInitDataWithRetry ::
  "'r ChainFetcher \<Rightarrow> ChainTracker \<Rightarrow> 'r \<Rightarrow> (error option \<times> ChainTracker \<times> 'r) option" where
  "fetchInitDataWithRetry cf cs r =
     (case fetchLatestBlockNum_retry cf initRetriesCount (fetchLatestBlockNum cf r) of
        (Inl err, r1) \<Rightarrow> Some (Some (CriticalInitError err), cs, r1)
      | (Inr newLatestBlock, r1) \<Rightarrow>
          (case fetchAllPreviousBlocks_retry cf newLatestBlock initRetriesCount
                  (fetchAllPreviousBlocks cf cs r1 newLatestBlock) of
             None \<Rightarrow> None
           | Some (Inl err, cs', r2) \<Rightarrow> Some (Some (CriticalInitError err), cs', r2)
           | Some (Inr latestHash, cs', r2) \<Rightarrow> Some (None, cs', r2)))"

text \<open>
  The tracker that \<open>NewChainTracker\<close> builds from its configuration, before \<open>start\<close>:
  no block saved, latest block number 0.
\<close>

record ChainTrackerConfig =
  ForkCallback :: bool
  NewLatestCallback :: bool
  BlocksToSave :: uint64
  ServerBlockMemory :: uint64
  blocksCheckpointDistance :: uint64

definition newChainTracker :: "ChainTrackerConfig \<Rightarrow> int64 \<Rightarrow> ChainTracker" where
  "newChainTracker config tickerTime =
     \<lparr>blocksToSave = BlocksToSave config, latestBlockNum = 0, blocksQueue = [],
      forkCallback = ForkCallback config, newLatestCallback = NewLatestCallback config,
      serverBlockMemory = ServerBlockMemory config,
      blockCheckpointDistance = blocksCheckpointDistance config, blockCheckpoint = 0,
      ticker = tickerTime\<rparr>"

section \<open>The poll loop\<close>

text \<open>\<open>time.NewTicker\<close> panics on a period that is not positive.\<close>

definition NewTicker :: "int64 \<Rightarrow> int64 option" where
  "NewTicker d = (if d \<le>s 0 then None else Some d)"

definition updateTicker :: "ChainTracker \<Rightarrow> int64 \<Rightarrow> uint64 \<Rightarrow> ChainTracker option" where
  "updateTicker cs tickerBaseTime fetchFails =
     (case NewTicker (exponentialBackoff tickerBaseTime fetchFails) of
        None \<Rightarrow> None
      | Some t \<Rightarrow> Some (cs\<lparr>ticker := t\<rparr>))"

text \<open>
  One iteration of the loop of \<open>start\<close> on a tick: the state is the tracker, the
  remote and the counter \<open>fetchFails\<close>; the callbacks called are returned.
\<close>

definition pollTick ::
  "'r ChainFetcher \<Rightarrow> int64 \<Rightarrow> ChainTracker \<times> 'r \<times> uint64
     \<Rightarrow> (callback list \<times> ChainTracker \<times> 'r \<times> uint64) option" where
  "pollTick cf tickerTime st =
     (case st of (cs, r, fetchFails) \<Rightarrow>
        (case fetchAllPreviousBlocksIfNecessary cf cs r of
           None \<Rightarrow> None
         | Some (Some err, calls, cs', r') \<Rightarrow>
             (case updateTicker cs' tickerTime (fetchFails + 1) of
                None \<Rightarrow> None
              | Some cs'' \<Rightarrow> Some (calls, cs'', r', fetchFails + 1))
         | Some (None, calls, cs', r') \<Rightarrow>
             (if fetchFails \<noteq> 0
              then (case updateTicker cs' tickerTime 0 of
                      None \<Rightarrow> None
                    | Some cs'' \<Rightarrow> Some (calls, cs'', r', 0))
              else Some (calls, cs', r', 0))))"

section \<open>The invariant of the window\<close>

text \<open>
  The block numbers of a window go up by exactly one from each record to the next.
\<close>

fun contiguous :: "BlockStore list \<Rightarrow> bool" where
  "contiguous [] = True"
| "contiguous [a] = True"
| "contiguous (a # b # rest) = (sint (Block b) = sint (Block a) + 1 \<and> contiguous (b # rest))"

definition window_invariant :: "ChainTracker \<Rightarrow> bool" where
  "window_invariant cs =
     (length (blocksQueue cs) = unat (blocksToSave cs)
      \<and> contiguous (blocksQueue cs)
      \<and> GetLatestBlockNum cs = Block (getLatestBlockUnsafe cs))"

text \<open>
  The trackers the invariant is stated for: a window size that is positive, as the
  configuration requires, and below \<open>2 ^ 62\<close>, and a latest block number that is not
  negative (it starts at 0 and never decreases).
\<close>

definition tracker_range :: "ChainTracker \<Rightarrow> bool" where
  "tracker_range cs =
     (0 < unat (blocksToSave cs) \<and> unat (blocksToSave cs) < 2 ^ 62 \<and> 0 \<le>s latestBlockNum cs)"

section \<open>Concrete trackers and remotes\<close>

text \<open>
  The scenarios of the specification use a window of four blocks. \<open>static_fetcher\<close>
  is a remote that does not change: it reports one latest block number and the hash a
  table gives for each block number. \<open>failing_fetcher\<close> is a remote that is down.
\<close>

definition static_fetcher :: "int64 \<Rightarrow> (int64 \<Rightarrow> string) \<Rightarrow> unit ChainFetcher" where
  "static_fetcher latest hashes =
     \<lparr>FetchLatestBlockNum = (\<lambda>r. (Inr latest, r)),
      FetchBlockHashByNum = (\<lambda>r b. (Inr (hashes b), r))\<rparr>"

definition failing_fetcher :: "unit ChainFetcher" where
  "failing_fetcher =
     \<lparr>FetchLatestBlockNum = (\<lambda>r. (Inl (FetcherError 0), r)),
      FetchBlockHashByNum = (\<lambda>r b. (Inl (FetcherError 1), r))\<rparr>"

definition tracker_100 :: ChainTracker where
  "tracker_100 =
     \<lparr>blocksToSave = 4, latestBlockNum = 100,
      blocksQueue = [\<lparr>Block = 97, Hash = ''h97''\<rparr>, \<lparr>Block = 98, Hash = ''h98''\<rparr>,
                     \<lparr>Block = 99, Hash = ''h99''\<rparr>, \<lparr>Block = 100, Hash = ''h100''\<rparr>],
      forkCallback = True, newLatestCallback = True, serverBlockMemory = 10,
      blockCheckpointDistance = 5, blockCheckpoint = 100, ticker = 1000000000\<rparr>"

text \<open>
  \<open>spec_hashes\<close> is the chain of the scenarios, block \<open>n\<close> with hash \<open>hn\<close>.
  \<open>flaky_fetcher\<close> is a remote that counts the hash requests it has served and
  fails from the third one on.
\<close>

definition spec_hashes :: "int64 \<Rightarrow> string" where
  "spec_hashes b =
     (if b = 97 then ''h97'' else if b = 98 then ''h98'' else if b = 99 then ''h99''
      else if b = 100 then ''h100'' else if b = 101 then ''h101'' else if b = 102 then ''h102''
      else if b = 103 then ''h103'' else if b = 104 then ''h104'' else ''h'')"

definition flaky_fetcher :: "nat ChainFetcher" where
  "flaky_fetcher =
     \<lparr>FetchLatestBlockNum = (\<lambda>r. (Inr 101, r)),
      FetchBlockHashByNum = (\<lambda>r b. (if 2 \<le> r then Inl (FetcherError 1) else Inr ''new'', Suc r))\<rparr>"

definition tracker_101 :: ChainTracker where
  "tracker_101 =
     \<lparr>blocksToSave = 4, latestBlockNum = 101,
      blocksQueue = [\<lparr>Block = 98, Hash = ''h98''\<rparr>, \<lparr>Block = 99, Hash = ''h99''\<rparr>,
                     \<lparr>Block = 100, Hash = ''h100''\<rparr>, \<lparr>Block = 101, Hash = ''h101''\<rparr>],
      forkCallback = True, newLatestCallback = True, serverBlockMemory = 10,
      blockCheckpointDistance = 5, blockCheckpoint = 100, ticker = 1000000000\<rparr>"

definition tracker_104 :: ChainTracker where
  "tracker_104 =
     \<lparr>blocksToSave = 4, latestBlockNum = 104,
      blocksQueue = [\<lparr>Block = 101, Hash = ''h101''\<rparr>, \<lparr>Block = 102, Hash = ''h102''\<rparr>,
                     \<lparr>Block = 103, Hash = ''h103''\<rparr>, \<lparr>Block = 104, Hash = ''h104''\<rparr>],
      forkCallback = True, newLatestCallback = True, serverBlockMemory = 10,
      blockCheckpointDistance = 5, blockCheckpoint = 104, ticker = 1000000000\<rparr>"

text \<open>A tracker whose newest record carries a wrong block number.\<close>

definition tracker_mismatch :: ChainTracker where
  "tracker_mismatch =
     tracker_100\<lparr>blocksQueue :=
        [\<lparr>Block = 97, Hash = ''h97''\<rparr>, \<lparr>Block = 98, Hash = ''h98''\<rparr>,
         \<lparr>Block = 99, Hash = ''h99''\<rparr>, \<lparr>Block = 555, Hash = ''h100''\<rparr>]\<rparr>"

text \<open>The tracker of the fifth scenario, after a reorganisation deeper than the window.\<close>

definition tracker_108 :: ChainTracker where
  "tracker_108 =
     \<lparr>blocksToSave = 4, latestBlockNum = 108,
      blocksQueue = [\<lparr>Block = 105, Hash = ''x''\<rparr>, \<lparr>Block = 106, Hash = ''x''\<rparr>,
                     \<lparr>Block = 107, Hash = ''x''\<rparr>, \<lparr>Block = 108, Hash = ''x''\<rparr>],
      forkCallback = True, newLatestCallback = True, serverBlockMemory = 10,
      blockCheckpointDistance = 5, blockCheckpoint = 108, ticker = 1000000000\<rparr>"

text \<open>The configuration of the scenarios.\<close>

definition config_4 :: ChainTrackerConfig where
  "config_4 =
     \<lparr>ForkCallback = True, NewLatestCallback = True, BlocksToSave = 4, ServerBlockMemory = 10,
      blocksCheckpointDistance = 5\<rparr>"

text \<open>
  Two trackers at the ends of the integer ranges: the first tracker of the scenarios with
  the largest \<open>uint64\<close> as its server block memory, and the tracker whose window ends at
  the largest \<open>int64\<close> block number.
\<close>

definition tracker_wide_memory :: ChainTracker where
  "tracker_wide_memory = tracker_100\<lparr>serverBlockMemory := 18446744073709551615\<rparr>"

definition tracker_max :: ChainTracker where
  "tracker_max =
     \<lparr>blocksToSave = 4, latestBlockNum = 9223372036854775807,
      blocksQueue = [\<lparr>Block = 9223372036854775804, Hash = ''h''\<rparr>,
                     \<lparr>Block = 9223372036854775805, Hash = ''h''\<rparr>,
                     \<lparr>Block = 9223372036854775806, Hash = ''h''\<rparr>,
                     \<lparr>Block = 9223372036854775807, Hash = ''h''\<rparr>],
      forkCallback = True, newLatestCallback = True, serverBlockMemory = 10,
      blockCheckpointDistance = 5, blockCheckpoint = 9223372036854775807, ticker = 1000000000\<rparr>"

section \<open>Signed 64-bit arithmetic that does not overflow\<close>

lemma sint_sub_uint:
  assumes "- (2 ^ 63) \<le> sint (a :: int64) - uint (m :: uint64)"
  shows "sint (a - m) = sint a - uint m"
proof -
  have "a - m = word_of_int (sint a - uint m)"
    by simp
  then have "sint (a - m) = signed_take_bit 63 (sint a - uint m)"
    by (simp only: sint_sbintrunc') simp
  also have "\<dots> = sint a - uint m"
  proof (rule signed_take_bit_int_eq_self)
    show "- (2 ^ 63) \<le> sint a - uint m" by (rule assms)
    have "sint a < 2 ^ 63" using sint_lt [of a] by simp
    moreover have "0 \<le> uint m" by simp
    ultimately show "sint a - uint m < 2 ^ 63" by linarith
  qed
  finally show ?thesis .
qed

lemma sint_in_range: "- (2 ^ 63) \<le> k \<Longrightarrow> k < 2 ^ 63 \<Longrightarrow> sint (word_of_int k :: int64) = k"
  by (simp add: sint_sbintrunc' signed_take_bit_int_eq_self)

lemma sint_mult_in_range:
  "- (2 ^ 63) \<le> sint a * sint b \<Longrightarrow> sint a * sint b < 2 ^ 63
     \<Longrightarrow> sint (a * b :: int64) = sint a * sint b"
  by (simp add: sint_word_ariths signed_take_bit_int_eq_self)

lemma sint_of_nat_len: "n < 2 ^ 63 \<Longrightarrow> sint (of_nat n :: int64) = int n"
proof -
  assume n: "n < 2 ^ 63"
  have "int n < 2 ^ 63" using n by (metis of_nat_less_iff of_nat_numeral of_nat_power)
  then show ?thesis
    using sint_in_range [of "int n"] by simp
qed

lemma sint_sub_range:
  "- (2 ^ 63) \<le> sint a - sint b \<Longrightarrow> sint a - sint b < 2 ^ 63
     \<Longrightarrow> sint (a - b :: int64) = sint a - sint b"
  by (simp add: sint_word_ariths signed_take_bit_int_eq_self)

lemma sint_add_range:
  "- (2 ^ 63) \<le> sint a + sint b \<Longrightarrow> sint a + sint b < 2 ^ 63
     \<Longrightarrow> sint (a + b :: int64) = sint a + sint b"
  by (simp add: sint_word_ariths signed_take_bit_int_eq_self)

section \<open>The overlap test and the scan loop\<close>

lemma hashesOverlapIndexes_accept:
  assumes "hashesOverlapIndexes cs readIndexDiff newQueueIdx fetchedBlockNum newHashForBlock
             = Some (True, s, e, n)"
  defines "existing_idx \<equiv> of_nat (length (blocksQueue cs)) - 1 + readIndexDiff - newQueueIdx"
  shows "0 <s existing_idx \<and> existing_idx \<le>s of_nat (length (blocksQueue cs)) - 1
         \<and> nat (sint existing_idx) < length (blocksQueue cs)
         \<and> Block (blocksQueue cs ! nat (sint existing_idx)) = fetchedBlockNum
         \<and> Hash (blocksQueue cs ! nat (sint existing_idx)) = newHashForBlock
         \<and> \<not> existing_idx + 1 <s blocksToSave cs - 1 - newQueueIdx
         \<and> \<not> existing_idx + 1 <s readIndexDiff
         \<and> \<not> of_nat (length (blocksQueue cs)) \<le>s readIndexDiff
         \<and> s = readIndexDiff \<and> e = existing_idx + 1 \<and> n = e - s"
  using assms(1) unfolding existing_idx_def hashesOverlapIndexes_def Let_def index_slice_def
  by (auto split: if_splits)

lemma hashesOverlapIndexes_mismatch:
  assumes "0 <s of_nat (length (blocksQueue cs)) - 1 + readIndexDiff - newQueueIdx"
   and "of_nat (length (blocksQueue cs)) - 1 + readIndexDiff - newQueueIdx \<le>s of_nat (length (blocksQueue cs)) - 1"
   and "index_slice (blocksQueue cs) (of_nat (length (blocksQueue cs)) - 1 + readIndexDiff - newQueueIdx) = Some rec"
   and "Block rec \<noteq> fetchedBlockNum"
  shows "hashesOverlapIndexes cs readIndexDiff newQueueIdx fetchedBlockNum newHashForBlock
             = Some (False, 0, 0, 0)"
  using assms unfolding hashesOverlapIndexes_def Let_def
  by (auto split: if_splits)

lemma hashesOverlapIndexes_no_panic:
  assumes "length (blocksQueue cs) < 2 ^ 63"
  shows "hashesOverlapIndexes cs readIndexDiff newQueueIdx fetchedBlockNum newHashForBlock \<noteq> None"
proof -
  let ?saved = "of_nat (length (blocksQueue cs)) :: int64"
  let ?i = "?saved - 1 + readIndexDiff - newQueueIdx"
  have s: "sint ?saved = int (length (blocksQueue cs))" by (rule sint_of_nat_len [OF assms])
  have "int (length (blocksQueue cs)) < 2 ^ 63"
    using s sint_lt [of ?saved] by simp
  then have s1: "sint (?saved - 1) = int (length (blocksQueue cs)) - 1"
    using s sint_sub_range [of ?saved 1] by simp
  have "0 <s ?i \<Longrightarrow> ?i \<le>s ?saved - 1 \<Longrightarrow> index_slice (blocksQueue cs) ?i \<noteq> None"
    by (simp add: index_slice_def word_sless_alt word_sle_eq s1)
  then show ?thesis
    unfolding hashesOverlapIndexes_def Let_def
    by (auto split: option.splits)
qed


lemma hashesOverlapIndexes_reject:
  "hashesOverlapIndexes cs readIndexDiff newQueueIdx fetchedBlockNum newHashForBlock
     = Some (False, s, e, n) \<Longrightarrow> s = 0 \<and> e = 0 \<and> n = 0"
  unfolding hashesOverlapIndexes_def Let_def
  by (auto split: if_splits option.splits)

lemma sint_blocksToSave: "\<not> (b :: int64) <s 0 \<Longrightarrow> sint b = int (unat b)"
proof -
  assume "\<not> b <s 0"
  then have 0: "0 \<le> sint b" by (simp add: word_sless_alt)
  have "sint b < 2 ^ 63" using sint_lt [of b] by simp
  then have 1: "sint b < 2 ^ 64" by simp
  have "uint b = take_bit 64 (sint b)" using uint_sint [of b] by simp
  also have "\<dots> = sint b" using 0 1 by (rule take_bit_int_eq_self)
  finally show ?thesis by simp
qed

lemma unat_lt_63: "\<not> (b :: int64) <s 0 \<Longrightarrow> unat b < 2 ^ 63"
proof -
  assume a: "\<not> b <s 0"
  have "sint b < 2 ^ 63" using sint_lt [of b] by simp
  then have "int (unat b) < 2 ^ 63" using sint_blocksToSave [OF a] by simp
  then show ?thesis by (metis of_nat_less_iff of_nat_numeral of_nat_power)
qed

lemma readHashes_loop_step:
  assumes "idx <s blocksToSave cs"
    and "fetchBlockHashByNum cf cs r (latestBlock - idx) = (Inr h, r1)"
    and "hashesOverlapIndexes cs rd idx (latestBlock - idx) h = Some (False, s1, e1, n1)"
    and "store_slice newq (blocksToSave cs - 1 - idx) \<lparr>Block = latestBlock - idx, Hash = h\<rparr> = Some newq1"
  shows "readHashes_loop cf cs latestBlock rd r idx s0 e0 n0 newq
         = readHashes_loop cf cs latestBlock rd r1 (idx + 1) s1 e1 n1 newq1"
  using assms by (subst readHashes_loop.simps) simp

lemma readHashes_loop_found:
  assumes "idx <s blocksToSave cs"
    and "fetchBlockHashByNum cf cs r (latestBlock - idx) = (Inr h, r1)"
    and "hashesOverlapIndexes cs rd idx (latestBlock - idx) h = Some (True, s1, e1, n1)"
  shows "readHashes_loop cf cs latestBlock rd r idx s0 e0 n0 newq
         = Some (Inr (True, idx, s1, e1, n1, newq), r1)"
  using assms by (subst readHashes_loop.simps) simp

lemma readHashes_loop_error:
  assumes "idx <s blocksToSave cs"
    and "fetchBlockHashByNum cf cs r (latestBlock - idx) = (Inl err, r1)"
  shows "readHashes_loop cf cs latestBlock rd r idx s0 e0 n0 newq
         = Some (Inl (CouldNotGetBlockData err), r1)"
  using assms by (subst readHashes_loop.simps) simp

lemma readHashes_loop_exit:
  assumes "\<not> idx <s blocksToSave cs"
  shows "readHashes_loop cf cs latestBlock rd r idx s0 e0 n0 newq
         = Some (Inr (False, idx, s0, e0, n0, newq), r)"
  using assms by (subst readHashes_loop.simps) simp


lemma scan_index_facts:
  assumes nn: "\<not> blocksToSave cs <s 0" and k: "k < unat (blocksToSave cs)"
  shows "(of_nat k :: int64) <s blocksToSave cs"
    and "sint (blocksToSave cs - 1 - of_nat k) = int (unat (blocksToSave cs)) - 1 - int k"
    and "sint (of_nat k :: int64) = int k"
    and "nat (sint (blocksToSave cs - 1 - of_nat k)) = unat (blocksToSave cs) - 1 - k"
    and "0 \<le>s blocksToSave cs - 1 - of_nat k"
proof -
  let ?b = "blocksToSave cs"
  have B: "sint ?b = int (unat ?b)"
    by (rule sint_blocksToSave [OF nn])
  have k63: "k < 2 ^ 63" using k unat_lt_63 [OF nn] by simp
  show sk: "sint (of_nat k :: int64) = int k" by (rule sint_of_nat_len [OF k63])
  have ik: "int k < int (unat ?b)" using k by (simp only: of_nat_less_iff)
  then show "(of_nat k :: int64) <s ?b"
    by (simp only: word_sless_alt sk B)
  have lo: "0 \<le> sint ?b" using nn by (simp add: word_sless_alt)
  have hi: "sint ?b < 2 ^ 63" using sint_lt [of ?b] by simp
  have m1: "sint (?b - 1) = sint ?b - 1"
    using sint_sub_range [of ?b 1] lo hi by simp
  have "sint (?b - 1 - of_nat k) = sint (?b - 1) - sint (of_nat k :: int64)"
    by (rule sint_sub_range) (use m1 sk lo hi ik B in linarith)+
  then show e: "sint (?b - 1 - of_nat k) = int (unat ?b) - 1 - int k"
    by (simp only: m1 sk B)
  have "nat (int (unat ?b) - 1 - int k) = unat ?b - 1 - k" using k by linarith
  then show "nat (sint (?b - 1 - of_nat k)) = unat ?b - 1 - k" by (simp only: e)
  have "0 \<le> int (unat ?b) - 1 - int k" using ik by linarith
  then show "0 \<le>s ?b - 1 - of_nat k" by (simp only: word_sle_eq e sint_0)
qed

lemma readHashes_loop_char:
  assumes nn: "\<not> blocksToSave cs <s 0"
  shows "k \<le> unat (blocksToSave cs) \<Longrightarrow> length newq = unat (blocksToSave cs)
    \<Longrightarrow> s0 = 0 \<and> e0 = 0 \<and> n0 = 0
    \<Longrightarrow> readHashes_loop cf cs latest rd r (of_nat k) s0 e0 n0 newq
          = Some (Inr (found, i, s, e, n, newq'), r')
    \<Longrightarrow> \<exists>m. i = of_nat m \<and> k \<le> m \<and> m \<le> unat (blocksToSave cs)
          \<and> length newq' = unat (blocksToSave cs)
          \<and> (\<forall>j. k \<le> j \<and> j < m
                 \<longrightarrow> Block (newq' ! (unat (blocksToSave cs) - 1 - j)) = latest - of_nat j)
          \<and> (\<forall>p. p < unat (blocksToSave cs) - m \<or> unat (blocksToSave cs) - k \<le> p
                 \<longrightarrow> newq' ! p = newq ! p)
          \<and> (found \<longrightarrow> m < unat (blocksToSave cs)
                 \<and> (\<exists>h. hashesOverlapIndexes cs rd (of_nat m) (latest - of_nat m) h
                         = Some (True, s, e, n)))
          \<and> (\<not> found \<longrightarrow> m = unat (blocksToSave cs) \<and> s = 0 \<and> e = 0 \<and> n = 0)"
proof (induction d \<equiv> "unat (blocksToSave cs) - k" arbitrary: k r s0 e0 n0 newq)
  case 0
  then have kB: "k = unat (blocksToSave cs)" by simp
  have "\<not> (of_nat k :: int64) <s blocksToSave cs"
    by (simp add: kB)
  from readHashes_loop_exit [OF this, of cf latest rd r s0 e0 n0 newq] "0.prems"(4)
  have "found = False" "i = of_nat k" "s = s0" "e = e0" "n = n0" "newq' = newq"
    by simp_all
  with 0 kB show ?case by auto
next
  case (Suc d)
  let ?B = "unat (blocksToSave cs)"
  let ?idx = "of_nat k :: int64"
  from Suc.hyps(2) have k: "k < ?B" by simp
  note ix = scan_index_facts [OF nn k]
  obtain res r1 where f: "fetchBlockHashByNum cf cs r (latest - ?idx) = (res, r1)"
    by (cases "fetchBlockHashByNum cf cs r (latest - ?idx)")
  show ?case
  proof (cases res)
    case (Inl err)
    from readHashes_loop_error [OF ix(1) f [unfolded Inl], of rd s0 e0 n0 newq] Suc.prems(4)
    show ?thesis by simp
  next
    case (Inr h)
    note f' = f [unfolded Inr]
    show ?thesis
    proof (cases "hashesOverlapIndexes cs rd ?idx (latest - ?idx) h")
      case None
      with ix(1) f' Suc.prems(4) show ?thesis
        by (subst (asm) readHashes_loop.simps) simp
    next
      case (Some t)
      obtain fo s1 e1 n1 where t: "t = (fo, s1, e1, n1)" by (cases t)
      note ov = Some [unfolded t]
      show ?thesis
      proof (cases fo)
        case True
        have ov': "hashesOverlapIndexes cs rd ?idx (latest - ?idx) h = Some (True, s1, e1, n1)"
          using ov True by simp
        from readHashes_loop_found [OF ix(1) f' ov', of s0 e0 n0 newq] Suc.prems(4)
        have "found" "i = ?idx" "s = s1" "e = e1" "n = n1" "newq' = newq" "r' = r1"
          by simp_all
        with k Suc.prems(2) ov' show ?thesis
          by (intro exI [of _ k]) auto
      next
        case False
        have ov': "hashesOverlapIndexes cs rd ?idx (latest - ?idx) h = Some (False, s1, e1, n1)"
          using ov False by simp
        have z: "s1 = 0 \<and> e1 = 0 \<and> n1 = 0"
          using hashesOverlapIndexes_reject [OF ov'] .
        let ?rec = "\<lparr>Block = latest - ?idx, Hash = h\<rparr>"
        let ?newq1 = "newq[?B - 1 - k := ?rec]"
        have st: "store_slice newq (blocksToSave cs - 1 - ?idx) ?rec = Some ?newq1"
          unfolding store_slice_def ix(4) using ix(5) k Suc.prems(2)
          by simp
        have next_idx: "?idx + 1 = of_nat (Suc k)" by simp
        from readHashes_loop_step [OF ix(1) f' ov' st, of s0 e0 n0] Suc.prems(4)
        have run: "readHashes_loop cf cs latest rd r1 (of_nat (Suc k)) s1 e1 n1 ?newq1
                     = Some (Inr (found, i, s, e, n, newq'), r')"
          unfolding next_idx by simp
        have d: "d = ?B - Suc k" using Suc.hyps(2) by simp
        have len1: "length ?newq1 = ?B" using Suc.prems(2) by simp
        have sk: "Suc k \<le> ?B" using k by simp
        from Suc.hyps(1) [OF d sk len1 z run]
        obtain m where m: "i = of_nat m" "Suc k \<le> m" "m \<le> ?B" "length newq' = ?B"
          "\<forall>j. Suc k \<le> j \<and> j < m \<longrightarrow> Block (newq' ! (?B - 1 - j)) = latest - of_nat j"
          "\<forall>p. p < ?B - m \<or> ?B - Suc k \<le> p \<longrightarrow> newq' ! p = ?newq1 ! p"
          "found \<longrightarrow> m < ?B \<and> (\<exists>h. hashesOverlapIndexes cs rd (of_nat m) (latest - of_nat m) h
                         = Some (True, s, e, n))"
          "\<not> found \<longrightarrow> m = ?B \<and> s = 0 \<and> e = 0 \<and> n = 0"
          by blast
        have atk: "Block (newq' ! (?B - 1 - k)) = latest - of_nat k"
        proof -
          have "newq' ! (?B - 1 - k) = ?newq1 ! (?B - 1 - k)"
            using m(6) by simp
          also have "\<dots> = ?rec" using k Suc.prems(2) by simp
          finally show ?thesis by simp
        qed
        have blocks: "\<forall>j. k \<le> j \<and> j < m \<longrightarrow> Block (newq' ! (?B - 1 - j)) = latest - of_nat j"
        proof (intro allI impI)
          fix j assume j: "k \<le> j \<and> j < m"
          show "Block (newq' ! (?B - 1 - j)) = latest - of_nat j"
          proof (cases "j = k")
            case True
            then show ?thesis using atk by simp
          next
            case False
            then have "Suc k \<le> j \<and> j < m" using j by simp
            then show ?thesis using m(5) by blast
          qed
        qed
        have frame: "\<forall>p. p < ?B - m \<or> ?B - k \<le> p \<longrightarrow> newq' ! p = newq ! p"
        proof (intro allI impI)
          fix p assume p: "p < ?B - m \<or> ?B - k \<le> p"
          then have "p < ?B - m \<or> ?B - Suc k \<le> p" by linarith
          then have "newq' ! p = ?newq1 ! p" using m(6) by blast
          moreover have "p \<noteq> ?B - 1 - k" using p m(2) k by linarith
          ultimately show "newq' ! p = newq ! p" by simp
        qed
        from m(1,2,3,4) blocks frame m(7,8) show ?thesis
          by (intro exI [of _ m]) simp
      qed
    qed
  qed
qed

section \<open>Slices and the replacement of the queue\<close>

lemma make_slice_Some:
  "make_slice b = Some newq \<Longrightarrow> \<not> b <s 0 \<and> length newq = unat b"
  using sint_blocksToSave [of b]
  by (auto simp: make_slice_def split: if_splits)

lemma slice_range_length:
  assumes "slice_range xs lo hi = Some kept"
  shows "0 \<le> sint lo \<and> sint lo \<le> sint hi \<and> nat (sint hi) \<le> length xs
         \<and> kept = take (nat (sint hi) - nat (sint lo)) (drop (nat (sint lo)) xs)
         \<and> int (length kept) = sint hi - sint lo"
  using assms by (auto simp: slice_range_def word_sle_eq split: if_splits)

lemma slice_from_length:
  assumes "slice_from xs lo = Some rest"
  shows "0 \<le> sint lo \<and> nat (sint lo) \<le> length xs \<and> rest = drop (nat (sint lo)) xs
         \<and> int (length rest) = int (length xs) - sint lo"
  using assms by (auto simp: slice_from_def word_sle_eq split: if_splits)

lemma replaceBlocksQueue_result:
  assumes "replaceBlocksQueue cs latestBlock n s e newq copied = Some ((c, len, h), cs')"
  shows "cs' = cs\<lparr>latestBlockNum := latestBlock,
                   blocksQueue := (if 0 <s n
                                   then take (nat (sint e) - nat (sint s)) (drop (nat (sint s)) (blocksQueue cs))
                                          @ drop (nat (sint n)) newq
                                   else newq)\<rparr>
         \<and> len = of_nat (length (blocksQueue cs'))
         \<and> h = Hash (getLatestBlockUnsafe cs')"
  using assms
  by (auto simp: replaceBlocksQueue_def setLatestBlockNum_def Let_def
        dest!: slice_range_length slice_from_length split: if_splits option.splits)

lemma replaceBlocksQueue_length:
  assumes "replaceBlocksQueue cs latestBlock n s e newq copied = Some ((c, len, h), cs')"
    and "n = e - s"
  shows "length (blocksQueue cs') = length newq"
proof (cases "0 <s n")
  case False
  with assms(1) show ?thesis
    by (auto simp: replaceBlocksQueue_def setLatestBlockNum_def Let_def)
next
  case True
  with assms(1) obtain kept fetched where
    k: "slice_range (blocksQueue cs) s e = Some kept" and
    f: "slice_from newq n = Some fetched" and
    q: "blocksQueue cs' = kept @ fetched"
    by (auto simp: replaceBlocksQueue_def setLatestBlockNum_def Let_def split: option.splits)
  note K = slice_range_length [OF k] and F = slice_from_length [OF f]
  have hi: "sint e < 2 ^ 63" using sint_lt [of e] by simp
  have "sint (e - s) = sint e - sint s"
    by (rule sint_sub_range) (use K hi in linarith)+
  then have "sint n = sint e - sint s" using assms(2) by simp
  then have "int (length kept) + int (length fetched) = int (length newq)"
    using K F by linarith
  then show ?thesis using q by (simp del: of_nat_add add: of_nat_add [symmetric])
qed


section \<open>The branches of a repair\<close>

lemma fetchAllPreviousBlocks_make_panic:
  assumes "make_slice (blocksToSave cs) = None"
  shows "fetchAllPreviousBlocks cf cs r latest = None"
  unfolding fetchAllPreviousBlocks_def using assms by simp

lemma fetchAllPreviousBlocks_rejected:
  assumes "make_slice (blocksToSave cs) = Some newq0"
    and "latest <s GetLatestBlockNum cs"
  shows "fetchAllPreviousBlocks cf cs r latest = Some (Inl InvalidLatestBlock, cs, r)"
  unfolding fetchAllPreviousBlocks_def Let_def using assms by simp

lemma fetchAllPreviousBlocks_scan_panic:
  assumes "make_slice (blocksToSave cs) = Some newq0"
    and "\<not> latest <s GetLatestBlockNum cs"
    and "readHashes_loop cf cs latest (latest - GetLatestBlockNum cs) r 0 0 0 0 newq0 = None"
  shows "fetchAllPreviousBlocks cf cs r latest = None"
  unfolding fetchAllPreviousBlocks_def readHashes_def Let_def
  using assms by simp

lemma fetchAllPreviousBlocks_scan_error:
  assumes "make_slice (blocksToSave cs) = Some newq0"
    and "\<not> latest <s GetLatestBlockNum cs"
    and "readHashes_loop cf cs latest (latest - GetLatestBlockNum cs) r 0 0 0 0 newq0
           = Some (Inl err, r1)"
  shows "fetchAllPreviousBlocks cf cs r latest = Some (Inl err, cs, r1)"
  unfolding fetchAllPreviousBlocks_def readHashes_def Let_def
  using assms by simp

lemma fetchAllPreviousBlocks_replace_panic:
  assumes "make_slice (blocksToSave cs) = Some newq0"
    and "\<not> latest <s GetLatestBlockNum cs"
    and "readHashes_loop cf cs latest (latest - GetLatestBlockNum cs) r 0 0 0 0 newq0
           = Some (Inr (found, i, s, e, n, newq), r1)"
    and "replaceBlocksQueue cs latest n s e newq (blocksToSave cs) = None"
  shows "fetchAllPreviousBlocks cf cs r latest = None"
  unfolding fetchAllPreviousBlocks_def readHashes_def Let_def
  using assms by simp

lemma fetchAllPreviousBlocks_replaced:
  assumes "make_slice (blocksToSave cs) = Some newq0"
    and "\<not> latest <s GetLatestBlockNum cs"
    and "readHashes_loop cf cs latest (latest - GetLatestBlockNum cs) r 0 0 0 0 newq0
           = Some (Inr (found, i, s, e, n, newq), r1)"
    and "replaceBlocksQueue cs latest n s e newq (blocksToSave cs) = Some ((c, len, h), cs1)"
  shows "fetchAllPreviousBlocks cf cs r latest =
           (if len < blocksToSave cs1 then Some (Inl NotEnoughBlocksSaved, cs1, r1)
            else if 1 <s latest - GetLatestBlockNum cs
                    \<or> blockCheckpoint cs1 + blockCheckpointDistance cs1 < latest
            then Some (Inr h, cs1\<lparr>blockCheckpoint := latest\<rparr>, r1)
            else Some (Inr h, cs1, r1))"
  unfolding fetchAllPreviousBlocks_def readHashes_def Let_def
  using assms by simp


lemma fetchAllPreviousBlocks_Some:
  assumes "fetchAllPreviousBlocks cf cs r latest = Some (res, cs', r')"
  obtains
    (rejected) "latest <s GetLatestBlockNum cs" "res = Inl InvalidLatestBlock" "cs' = cs" "r' = r"
  | (fetch_error) newq0 err where
      "make_slice (blocksToSave cs) = Some newq0"
      "\<not> latest <s GetLatestBlockNum cs"
      "readHashes_loop cf cs latest (latest - GetLatestBlockNum cs) r 0 0 0 0 newq0
         = Some (Inl err, r')"
      "res = Inl err" "cs' = cs"
  | (replaced) newq0 found i s e n newq c len h cs1 where
      "make_slice (blocksToSave cs) = Some newq0"
      "\<not> latest <s GetLatestBlockNum cs"
      "readHashes_loop cf cs latest (latest - GetLatestBlockNum cs) r 0 0 0 0 newq0
         = Some (Inr (found, i, s, e, n, newq), r')"
      "replaceBlocksQueue cs latest n s e newq (blocksToSave cs) = Some ((c, len, h), cs1)"
      "Some (res, cs', r') =
           (if len < blocksToSave cs1 then Some (Inl NotEnoughBlocksSaved, cs1, r')
            else if 1 <s latest - GetLatestBlockNum cs
                    \<or> blockCheckpoint cs1 + blockCheckpointDistance cs1 < latest
            then Some (Inr h, cs1\<lparr>blockCheckpoint := latest\<rparr>, r')
            else Some (Inr h, cs1, r'))"
proof (cases "make_slice (blocksToSave cs)")
  case None
  from fetchAllPreviousBlocks_make_panic [OF None, of cf r latest] assms
  show ?thesis by simp
next
  case (Some newq0)
  note mk = this
  show ?thesis
  proof (cases "latest <s GetLatestBlockNum cs")
    case True
    from fetchAllPreviousBlocks_rejected [OF mk True, of cf r] assms
    have "res = Inl InvalidLatestBlock" "cs' = cs" "r' = r" by simp_all
    with True show ?thesis by (rule rejected)
  next
    case False
    let ?loop = "readHashes_loop cf cs latest (latest - GetLatestBlockNum cs) r 0 0 0 0 newq0"
    show ?thesis
    proof (cases ?loop)
      case None
      from fetchAllPreviousBlocks_scan_panic [OF mk False None] assms
      show ?thesis by simp
    next
      case (Some out)
      obtain v r1 where out: "out = (v, r1)" by (cases out)
      show ?thesis
      proof (cases v)
        case (Inl err)
        have loop: "?loop = Some (Inl err, r1)" using Some out Inl by simp
        from fetchAllPreviousBlocks_scan_error [OF mk False loop] assms
        have eqs: "res = Inl err" "cs' = cs" "r' = r1" by simp_all
        show ?thesis
          by (rule fetch_error [OF mk False _ eqs(1,2)]) (simp add: loop eqs(3))
      next
        case (Inr t)
        obtain found i s e n newq where t: "t = (found, i, s, e, n, newq)"
          by (cases t)
        have loop: "?loop = Some (Inr (found, i, s, e, n, newq), r1)"
          using Some out Inr t by simp
        show ?thesis
        proof (cases "replaceBlocksQueue cs latest n s e newq (blocksToSave cs)")
          case None
          from fetchAllPreviousBlocks_replace_panic [OF mk False loop None] assms
          show ?thesis by simp
        next
          case (Some u)
          obtain c len h cs1 where u: "u = ((c, len, h), cs1)"
            by (cases u) auto
          have rep: "replaceBlocksQueue cs latest n s e newq (blocksToSave cs)
                       = Some ((c, len, h), cs1)"
            using Some u by simp
          note eq = fetchAllPreviousBlocks_replaced [OF mk False loop rep]
          have r1: "r' = r1" using eq assms by (simp split: if_splits)
          show ?thesis
          proof (rule replaced [OF mk False _ rep])
            show "?loop = Some (Inr (found, i, s, e, n, newq), r')"
              by (simp only: loop r1)
            show "Some (res, cs', r') =
                    (if len < blocksToSave cs1 then Some (Inl NotEnoughBlocksSaved, cs1, r')
                     else if 1 <s latest - GetLatestBlockNum cs
                             \<or> blockCheckpoint cs1 + blockCheckpointDistance cs1 < latest
                     then Some (Inr h, cs1\<lparr>blockCheckpoint := latest\<rparr>, r')
                     else Some (Inr h, cs1, r'))"
              unfolding r1 by (rule trans [OF assms [unfolded r1, symmetric] eq])
          qed
        qed
      qed
    qed
  qed
qed

section \<open>What a scan returns\<close>

lemma scan_result:
  assumes mk: "make_slice (blocksToSave cs) = Some newq0"
    and loop: "readHashes_loop cf cs latest rd r 0 0 0 0 newq0
                 = Some (Inr (found, i, s, e, n, newq), r')"
  shows "\<exists>m. i = of_nat m \<and> m \<le> unat (blocksToSave cs)
          \<and> length newq = unat (blocksToSave cs)
          \<and> (\<forall>j. j < m \<longrightarrow> Block (newq ! (unat (blocksToSave cs) - 1 - j)) = latest - of_nat j)
          \<and> (found \<longrightarrow> m < unat (blocksToSave cs)
                 \<and> (\<exists>h. hashesOverlapIndexes cs rd (of_nat m) (latest - of_nat m) h
                         = Some (True, s, e, n)))
          \<and> (\<not> found \<longrightarrow> m = unat (blocksToSave cs) \<and> s = 0 \<and> e = 0 \<and> n = 0)"
proof -
  note M = make_slice_Some [OF mk]
  have z: "(0 :: int64) = 0 \<and> (0 :: int64) = 0 \<and> (0 :: int64) = 0" by simp
  have l0: "readHashes_loop cf cs latest rd r (of_nat 0) 0 0 0 newq0
                 = Some (Inr (found, i, s, e, n, newq), r')"
    using loop by simp
  from readHashes_loop_char [OF conjunct1 [OF M] _ conjunct2 [OF M] z l0]
  obtain m where "i = of_nat m \<and> 0 \<le> m \<and> m \<le> unat (blocksToSave cs)
          \<and> length newq = unat (blocksToSave cs)
          \<and> (\<forall>j. 0 \<le> j \<and> j < m
                 \<longrightarrow> Block (newq ! (unat (blocksToSave cs) - 1 - j)) = latest - of_nat j)
          \<and> (\<forall>p. p < unat (blocksToSave cs) - m \<or> unat (blocksToSave cs) - 0 \<le> p
                 \<longrightarrow> newq ! p = newq0 ! p)
          \<and> (found \<longrightarrow> m < unat (blocksToSave cs)
                 \<and> (\<exists>h. hashesOverlapIndexes cs rd (of_nat m) (latest - of_nat m) h
                         = Some (True, s, e, n)))
          \<and> (\<not> found \<longrightarrow> m = unat (blocksToSave cs) \<and> s = 0 \<and> e = 0 \<and> n = 0)"
    by blast
  then show ?thesis by (intro exI [of _ m]) simp
qed

lemma scan_indexes:
  assumes mk: "make_slice (blocksToSave cs) = Some newq0"
    and loop: "readHashes_loop cf cs latest rd r 0 0 0 0 newq0
                 = Some (Inr (found, i, s, e, n, newq), r')"
  shows "n = e - s \<and> length newq = unat (blocksToSave cs)"
proof -
  from scan_result [OF mk loop] obtain m where
    m: "length newq = unat (blocksToSave cs)"
       "found \<longrightarrow> (\<exists>h. hashesOverlapIndexes cs rd (of_nat m) (latest - of_nat m) h
                         = Some (True, s, e, n))"
       "\<not> found \<longrightarrow> s = 0 \<and> e = 0 \<and> n = 0"
    by blast
  show ?thesis
  proof (cases found)
    case True
    with m(2) obtain h where
      "hashesOverlapIndexes cs rd (of_nat m) (latest - of_nat m) h = Some (True, s, e, n)"
      by blast
    from hashesOverlapIndexes_accept [OF this] m(1) show ?thesis by simp
  next
    case False
    with m show ?thesis by simp
  qed
qed

lemma replaced_length_is_blocksToSave:
  assumes mk: "make_slice (blocksToSave cs) = Some newq0"
    and loop: "readHashes_loop cf cs latest rd r 0 0 0 0 newq0
                 = Some (Inr (found, i, s, e, n, newq), r')"
    and rep: "replaceBlocksQueue cs latest n s e newq copied = Some ((c, len, h), cs1)"
  shows "len = blocksToSave cs1 \<and> length (blocksQueue cs1) = unat (blocksToSave cs)
         \<and> blocksToSave cs1 = blocksToSave cs"
proof -
  note I = scan_indexes [OF mk loop]
  note R = replaceBlocksQueue_result [OF rep]
  have l: "length (blocksQueue cs1) = unat (blocksToSave cs)"
    using replaceBlocksQueue_length [OF rep conjunct1 [OF I]] I by simp
  have b: "blocksToSave cs1 = blocksToSave cs"
    by (subst conjunct1 [OF R]) simp
  have "len = of_nat (length (blocksQueue cs1))" using R by simp
  then show ?thesis using l b by simp
qed

lemma readHashes_loop_Inl:
  "readHashes_loop cf cs latest rd r idx s0 e0 n0 newq = Some (Inl err, r')
   \<Longrightarrow> \<exists>e1 idx1 r1. err = CouldNotGetBlockData e1 \<and> idx1 <s blocksToSave cs
         \<and> fetchBlockHashByNum cf cs r1 (latest - idx1) = (Inl e1, r')"
proof (induction "nat (sint (blocksToSave cs) - sint idx)" arbitrary: idx r s0 e0 n0 newq
        rule: less_induct)
  case less
  note run = less.prems
  show ?case
  proof (cases "idx <s blocksToSave cs")
    case False
    from readHashes_loop_exit [OF False, of cf latest rd r s0 e0 n0 newq] run
    show ?thesis by simp
  next
    case True
    obtain res r1 where f: "fetchBlockHashByNum cf cs r (latest - idx) = (res, r1)"
      by (cases "fetchBlockHashByNum cf cs r (latest - idx)")
    show ?thesis
    proof (cases res)
      case (Inl e1)
      from readHashes_loop_error [OF True f [unfolded Inl], of rd s0 e0 n0 newq] run
      have "err = CouldNotGetBlockData e1" "r' = r1" by simp_all
      with True f Inl show ?thesis by blast
    next
      case (Inr h)
      note f' = f [unfolded Inr]
      show ?thesis
      proof (cases "hashesOverlapIndexes cs rd idx (latest - idx) h")
        case None
        with True f' run show ?thesis
          by (subst (asm) readHashes_loop.simps) simp
      next
        case (Some t)
        obtain fo s1 e1 n1 where t: "t = (fo, s1, e1, n1)" by (cases t)
        show ?thesis
        proof (cases fo)
          case True
          have "hashesOverlapIndexes cs rd idx (latest - idx) h = Some (True, s1, e1, n1)"
            using Some t True by simp
          from readHashes_loop_found [OF \<open>idx <s blocksToSave cs\<close> f' this, of s0 e0 n0 newq] run
          show ?thesis by simp
        next
          case False
          have ov: "hashesOverlapIndexes cs rd idx (latest - idx) h = Some (False, s1, e1, n1)"
            using Some t False by simp
          show ?thesis
          proof (cases "store_slice newq (blocksToSave cs - 1 - idx)
                          \<lparr>Block = latest - idx, Hash = h\<rparr>")
            case None
            with \<open>idx <s blocksToSave cs\<close> f' ov run show ?thesis
              by (subst (asm) readHashes_loop.simps) simp
          next
            case (Some newq1)
            from readHashes_loop_step [OF \<open>idx <s blocksToSave cs\<close> f' ov Some, of s0 e0 n0] run
            have next_run: "readHashes_loop cf cs latest rd r1 (idx + 1) s1 e1 n1 newq1
                              = Some (Inl err, r')"
              by simp
            have "nat (sint (blocksToSave cs) - sint (idx + 1))
                    < nat (sint (blocksToSave cs) - sint idx)"
              using \<open>idx <s blocksToSave cs\<close> sint_succ [OF \<open>idx <s blocksToSave cs\<close>]
              by (simp add: word_sless_alt)
            from less.hyps [OF this next_run] show ?thesis .
          qed
        qed
      qed
    qed
  qed
qed

section \<open>What a repair returns\<close>

lemma fetchAllPreviousBlocks_error:
  assumes "fetchAllPreviousBlocks cf cs r latest = Some (Inl err, cs', r')"
  shows "cs' = cs
         \<and> (err = InvalidLatestBlock \<and> latest <s GetLatestBlockNum cs \<and> r' = r
              \<or> (\<exists>e1 idx1 r1. err = CouldNotGetBlockData e1 \<and> idx1 <s blocksToSave cs
                     \<and> fetchBlockHashByNum cf cs r1 (latest - idx1) = (Inl e1, r')))"
  using assms
proof (cases rule: fetchAllPreviousBlocks_Some)
  case rejected
  then show ?thesis by simp
next
  case (fetch_error newq0 err')
  from readHashes_loop_Inl [OF fetch_error(3)] fetch_error(4,5)
  show ?thesis by auto
next
  case (replaced newq0 found i s e n newq c len h cs1)
  from replaced_length_is_blocksToSave [OF replaced(1,3,4)]
  have "\<not> len < blocksToSave cs1" by simp
  with replaced(5) show ?thesis by (simp split: if_splits)
qed

lemma fetchAllPreviousBlocks_success:
  assumes "fetchAllPreviousBlocks cf cs r latest = Some (Inr h, cs', r')"
  shows "latestBlockNum cs' = latest \<and> \<not> latest <s latestBlockNum cs
         \<and> blocksToSave cs' = blocksToSave cs
         \<and> length (blocksQueue cs') = unat (blocksToSave cs)
         \<and> h = Hash (getLatestBlockUnsafe cs')
         \<and> forkCallback cs' = forkCallback cs \<and> newLatestCallback cs' = newLatestCallback cs
         \<and> serverBlockMemory cs' = serverBlockMemory cs \<and> ticker cs' = ticker cs"
  using assms
proof (cases rule: fetchAllPreviousBlocks_Some)
  case (replaced newq0 found i s e n newq c len h1 cs1)
  note L = replaced_length_is_blocksToSave [OF replaced(1,3,4)]
  note R = replaceBlocksQueue_result [OF replaced(4)]
  have cs1: "latestBlockNum cs1 = latest" "blocksToSave cs1 = blocksToSave cs"
    "forkCallback cs1 = forkCallback cs" "newLatestCallback cs1 = newLatestCallback cs"
    "serverBlockMemory cs1 = serverBlockMemory cs" "ticker cs1 = ticker cs"
    by (subst conjunct1 [OF R], simp)+
  have h1: "h1 = Hash (getLatestBlockUnsafe cs1)" using R by simp
  from L have nl: "\<not> len < blocksToSave cs1" by simp
  from replaced(5) nl have "h = h1" and
    cs': "cs' = cs1 \<or> cs' = cs1\<lparr>blockCheckpoint := latest\<rparr>"
    by (auto split: if_splits)
  from cs' show ?thesis
    using cs1 h1 L \<open>h = h1\<close> replaced(2)
    by (auto simp: getLatestBlockUnsafe_def GetLatestBlockNum_def)
qed simp_all

lemma fetchAllPreviousBlocks_monotone:
  assumes "fetchAllPreviousBlocks cf cs r latest = Some (res, cs', r')"
  shows "latestBlockNum cs \<le>s latestBlockNum cs' \<and> blocksToSave cs' = blocksToSave cs"
proof (cases res)
  case (Inl err)
  with fetchAllPreviousBlocks_error [of cf cs r latest err cs' r'] assms show ?thesis by simp
next
  case (Inr h)
  with fetchAllPreviousBlocks_success [of cf cs r latest h cs' r'] assms show ?thesis
    by (simp add: word_sle_eq word_sless_alt)
qed

lemma repairs_monotone:
  "repairs cf cs r ls = Some (cs', r') \<Longrightarrow> latestBlockNum cs \<le>s latestBlockNum cs'"
proof (induction ls arbitrary: cs r)
  case Nil
  then show ?case by simp
next
  case (Cons l ls)
  from Cons.prems obtain res cs1 r1 where
    1: "fetchAllPreviousBlocks cf cs r l = Some (res, cs1, r1)" and
    2: "repairs cf cs1 r1 ls = Some (cs', r')"
    by (auto split: option.splits)
  from fetchAllPreviousBlocks_monotone [OF 1] Cons.IH [OF 2] show ?case
    by (simp add: word_sle_eq)
qed

section \<open>The hash-fetch wrapper\<close>

text \<open>
  Claim C9 says that, for every requested block number, the wrapper answers
  \<open>ErrorFailedToFetchTooEarlyBlock\<close> without calling the remote exactly when the number
  is below the latest block number minus the server block memory. The code computes the
  bound as \<open>latest - int64(serverBlockMemory)\<close>, which wraps. A configuration with the
  server block memory \<open>2 ^ 64 - 1\<close> bootstraps on a remote at block 100 to the tracker
  \<open>tracker_wide_memory\<close>; there the bound of the claim is far below block 100, and yet
  the request for block 100, the latest block itself, is answered
  \<open>ErrorFailedToFetchTooEarlyBlock\<close> and does not reach the remote.
\<close>

theorem fetchBlockHashByNum_memory_wrap_counterexample:
  "fetchInitDataWithRetry (static_fetcher 100 spec_hashes)
       (newChainTracker (config_4\<lparr>ServerBlockMemory := 18446744073709551615\<rparr>) 1000000000) ()
     = Some (None, tracker_wide_memory, ())
   \<and> sint (GetLatestBlockNum tracker_wide_memory) - uint (serverBlockMemory tracker_wide_memory)
       \<le> sint (100 :: int64)
   \<and> fetchBlockHashByNum (static_fetcher 100 spec_hashes) tracker_wide_memory () 100
       = (Inl ErrorFailedToFetchTooEarlyBlock, ())
   \<and> fetchBlockHashByNum (static_fetcher 100 spec_hashes) tracker_wide_memory () 100
       \<noteq> FetchBlockHashByNum (static_fetcher 100 spec_hashes) () 100"
proof (intro conjI)
  show "fetchInitDataWithRetry (static_fetcher 100 spec_hashes)
       (newChainTracker (config_4\<lparr>ServerBlockMemory := 18446744073709551615\<rparr>) 1000000000) ()
     = Some (None, tracker_wide_memory, ())"
    by code_simp
  show "sint (GetLatestBlockNum tracker_wide_memory) - uint (serverBlockMemory tracker_wide_memory)
       \<le> sint (100 :: int64)"
    by (simp add: GetLatestBlockNum_def tracker_wide_memory_def tracker_100_def)
  show "fetchBlockHashByNum (static_fetcher 100 spec_hashes) tracker_wide_memory () 100
       = (Inl ErrorFailedToFetchTooEarlyBlock, ())"
    by code_simp
  show "fetchBlockHashByNum (static_fetcher 100 spec_hashes) tracker_wide_memory () 100
       \<noteq> FetchBlockHashByNum (static_fetcher 100 spec_hashes) () 100"
    by code_simp
qed

text \<open>
  Claim C9, as amended. Whenever the latest block number minus the server block memory
  is not below the smallest \<open>int64\<close>, then for every requested block number
  \<open>fetchBlockHashByNum\<close> returns \<open>ErrorFailedToFetchTooEarlyBlock\<close> and leaves the
  remote as it was (the fetcher is not called) exactly when the number is below the
  latest block number minus the server block memory; at or above that bound the request
  goes to the remote fetcher.
\<close>

theorem fetchBlockHashByNum_too_early_iff:
  assumes "- (2 ^ 63) \<le> sint (GetLatestBlockNum cs) - uint (serverBlockMemory cs)"
  shows "(sint blockNum < sint (GetLatestBlockNum cs) - uint (serverBlockMemory cs)
            \<longrightarrow> fetchBlockHashByNum cf cs r blockNum = (Inl ErrorFailedToFetchTooEarlyBlock, r))
       \<and> (sint (GetLatestBlockNum cs) - uint (serverBlockMemory cs) \<le> sint blockNum
            \<longrightarrow> fetchBlockHashByNum cf cs r blockNum = FetchBlockHashByNum cf r blockNum)"
  using sint_sub_uint [OF assms]
  by (simp add: fetchBlockHashByNum_def word_sless_alt)

theorem fetchBlockHashByNum_too_early_iff_witness:
  "fetchBlockHashByNum (static_fetcher 100 (\<lambda>b. ''h'')) tracker_100 () 89
     = (Inl ErrorFailedToFetchTooEarlyBlock, ())
   \<and> fetchBlockHashByNum (static_fetcher 100 (\<lambda>b. ''h'')) tracker_100 () 90 = (Inr ''h'', ())"
proof -
  have h: "- (2 ^ 63) \<le> sint (GetLatestBlockNum tracker_100) - uint (serverBlockMemory tracker_100)"
    by (simp add: GetLatestBlockNum_def tracker_100_def)
  have a: "sint (89 :: int64)
             < sint (GetLatestBlockNum tracker_100) - uint (serverBlockMemory tracker_100)"
    by (simp add: GetLatestBlockNum_def tracker_100_def)
  have b: "sint (GetLatestBlockNum tracker_100) - uint (serverBlockMemory tracker_100)
             \<le> sint (90 :: int64)"
    by (simp add: GetLatestBlockNum_def tracker_100_def)
  from fetchBlockHashByNum_too_early_iff [OF h, of 89 "static_fetcher 100 (\<lambda>b. ''h'')" "()"] a
       fetchBlockHashByNum_too_early_iff [OF h, of 90 "static_fetcher 100 (\<lambda>b. ''h'')" "()"] b
  show ?thesis by (simp add: static_fetcher_def)
qed

section \<open>Failure semantics and monotonicity of a repair\<close>

text \<open>
  Claim C6. Every error that a repair returns leaves the tracker as it was, and it is
  either the rejection of a latest block older than the current one (the remote is not
  asked) or the error of a hash fetch of the scan, wrapped. A hash fetch that fails at
  any iteration of the scan makes the scan return that error, whatever it has stored in
  the new queue before, and the repair returns the error of its scan with the tracker
  unchanged. A latest block below the current latest block number is rejected without
  any call or write (when \<open>make\<close> does not panic on the window size). A successful
  repair sets the latest block number to a value that is not below the old one, so the
  latest block number never decreases across a sequence of repairs.
\<close>

theorem repair_failure_semantics:
  "(fetchAllPreviousBlocks cf cs r latest = Some (Inl err, cs', r')
      \<longrightarrow> cs' = cs
          \<and> (err = InvalidLatestBlock \<and> latest <s GetLatestBlockNum cs \<and> r' = r
               \<or> (\<exists>e1 idx1 r1. err = CouldNotGetBlockData e1 \<and> idx1 <s blocksToSave cs
                      \<and> fetchBlockHashByNum cf cs r1 (latest - idx1) = (Inl e1, r'))))
   \<and> (idx <s blocksToSave cs \<and> fetchBlockHashByNum cf cs r0 (latest - idx) = (Inl e0, r1)
      \<longrightarrow> readHashes_loop cf cs latest rd r0 idx s0 e0' n0 newq
            = Some (Inl (CouldNotGetBlockData e0), r1))
   \<and> (make_slice (blocksToSave cs) = Some newq0 \<and> \<not> latest <s GetLatestBlockNum cs
        \<and> readHashes_loop cf cs latest (latest - GetLatestBlockNum cs) r 0 0 0 0 newq0
             = Some (Inl err2, r2)
      \<longrightarrow> fetchAllPreviousBlocks cf cs r latest = Some (Inl err2, cs, r2))
   \<and> (\<not> blocksToSave cs <s 0 \<and> latest <s GetLatestBlockNum cs
      \<longrightarrow> fetchAllPreviousBlocks cf cs r latest = Some (Inl InvalidLatestBlock, cs, r))
   \<and> (fetchAllPreviousBlocks cf cs r latest = Some (Inr h, cs3, r3)
      \<longrightarrow> latestBlockNum cs3 = latest \<and> sint (GetLatestBlockNum cs) \<le> sint latest)
   \<and> (repairs cf cs r ls = Some (cs4, r4)
      \<longrightarrow> sint (GetLatestBlockNum cs) \<le> sint (GetLatestBlockNum cs4))"
proof (intro conjI impI)
  assume "fetchAllPreviousBlocks cf cs r latest = Some (Inl err, cs', r')"
  from fetchAllPreviousBlocks_error [OF this]
  show "cs' = cs" and "err = InvalidLatestBlock \<and> latest <s GetLatestBlockNum cs \<and> r' = r
               \<or> (\<exists>e1 idx1 r1. err = CouldNotGetBlockData e1 \<and> idx1 <s blocksToSave cs
                      \<and> fetchBlockHashByNum cf cs r1 (latest - idx1) = (Inl e1, r'))"
    by simp_all
next
  assume "idx <s blocksToSave cs \<and> fetchBlockHashByNum cf cs r0 (latest - idx) = (Inl e0, r1)"
  then show "readHashes_loop cf cs latest rd r0 idx s0 e0' n0 newq
            = Some (Inl (CouldNotGetBlockData e0), r1)"
    by (simp add: readHashes_loop_error)
next
  assume "make_slice (blocksToSave cs) = Some newq0 \<and> \<not> latest <s GetLatestBlockNum cs
        \<and> readHashes_loop cf cs latest (latest - GetLatestBlockNum cs) r 0 0 0 0 newq0
             = Some (Inl err2, r2)"
  then show "fetchAllPreviousBlocks cf cs r latest = Some (Inl err2, cs, r2)"
    by (simp add: fetchAllPreviousBlocks_scan_error)
next
  assume a: "\<not> blocksToSave cs <s 0 \<and> latest <s GetLatestBlockNum cs"
  then obtain newq0 where "make_slice (blocksToSave cs) = Some newq0"
    by (simp add: make_slice_def)
  from fetchAllPreviousBlocks_rejected [OF this conjunct2 [OF a]]
  show "fetchAllPreviousBlocks cf cs r latest = Some (Inl InvalidLatestBlock, cs, r)" .
next
  assume "fetchAllPreviousBlocks cf cs r latest = Some (Inr h, cs3, r3)"
  from fetchAllPreviousBlocks_success [OF this]
  show "latestBlockNum cs3 = latest" and "sint (GetLatestBlockNum cs) \<le> sint latest"
    by (simp_all add: word_sless_alt GetLatestBlockNum_def)
next
  assume "repairs cf cs r ls = Some (cs4, r4)"
  from repairs_monotone [OF this]
  show "sint (GetLatestBlockNum cs) \<le> sint (GetLatestBlockNum cs4)"
    by (simp add: word_sle_eq GetLatestBlockNum_def)
qed


theorem repair_failure_semantics_witness:
  "fetchAllPreviousBlocks flaky_fetcher tracker_100 0 101
     = Some (Inl (CouldNotGetBlockData (FetcherError 1)), tracker_100, 3)
   \<and> readHashes_loop flaky_fetcher tracker_100 101 1 2 2 0 0 0 [] 
     = Some (Inl (CouldNotGetBlockData (FetcherError 1)), 3)
   \<and> fetchAllPreviousBlocks (static_fetcher 99 spec_hashes) tracker_100 () 99
     = Some (Inl InvalidLatestBlock, tracker_100, ())
   \<and> fetchAllPreviousBlocks (static_fetcher 101 spec_hashes) tracker_100 () 101
     = Some (Inr ''h101'', tracker_101, ())
   \<and> repairs (static_fetcher 104 spec_hashes) tracker_100 () [101, 99, 104]
     = Some (tracker_104, ())
   \<and> sint (GetLatestBlockNum tracker_100) \<le> sint (GetLatestBlockNum tracker_104)"
proof -
  have a: "fetchAllPreviousBlocks flaky_fetcher tracker_100 0 101
     = Some (Inl (CouldNotGetBlockData (FetcherError 1)), tracker_100, 3)"
    by code_simp
  have b: "(2 :: int64) <s blocksToSave tracker_100
     \<and> fetchBlockHashByNum flaky_fetcher tracker_100 2 (101 - 2) = (Inl (FetcherError 1), 3)"
    by code_simp
  have c: "make_slice (blocksToSave tracker_100) = Some (replicate 4 \<lparr>Block = 0, Hash = []\<rparr>)
     \<and> \<not> 101 <s GetLatestBlockNum tracker_100
     \<and> readHashes_loop flaky_fetcher tracker_100 101 (101 - GetLatestBlockNum tracker_100) 0 0 0 0 0
          (replicate 4 \<lparr>Block = 0, Hash = []\<rparr>)
        = Some (Inl (CouldNotGetBlockData (FetcherError 1)), 3)"
    by code_simp
  have d: "\<not> blocksToSave tracker_100 <s 0 \<and> 99 <s GetLatestBlockNum tracker_100"
    by code_simp
  have e: "fetchAllPreviousBlocks (static_fetcher 101 spec_hashes) tracker_100 () 101
     = Some (Inr ''h101'', tracker_101, ())"
    by code_simp
  have f: "repairs (static_fetcher 104 spec_hashes) tracker_100 () [101, 99, 104]
     = Some (tracker_104, ())"
    by code_simp
  from repair_failure_semantics [of flaky_fetcher tracker_100 0 101
         "CouldNotGetBlockData (FetcherError 1)" tracker_100 3 2 2 "FetcherError 1" 3 1 0 0 0 "[]"
         "replicate 4 \<lparr>Block = 0, Hash = []\<rparr>" "CouldNotGetBlockData (FetcherError 1)" 3
         "''h''" tracker_100 0 "[]" tracker_100 0]
       repair_failure_semantics [of "static_fetcher 99 spec_hashes" tracker_100 "()" 99]
       repair_failure_semantics [of "static_fetcher 101 spec_hashes" tracker_100 "()" 101 _ _ _ _ _ _ _ _ _ _ _ _ _ _ _
          "''h101''" tracker_101 "()"]
       repair_failure_semantics [of "static_fetcher 104 spec_hashes" tracker_100 "()" _ _ _ _ _ _ _ _ _ _ _ _ _ _ _ _
          _ _ _ "[101, 99, 104]" tracker_104 "()"]
       a b c d e f
  show ?thesis by simp
qed

section \<open>The length check after the replacement\<close>

text \<open>
  Claim C10 says that a repair has an error path that writes the tracker before it
  fails: the check \<open>blocksQueueLen < blocksToSave\<close> after \<open>replaceBlocksQueue\<close>. The
  check is there, but it cannot fail, and no repair returns an error with a changed
  window or a changed latest block number.
\<close>

theorem repair_error_mutates_counterexample:
  "\<not> (\<exists>(cf :: 'r ChainFetcher) cs r latest err cs' r'.
        fetchAllPreviousBlocks cf cs r latest = Some (Inl err, cs', r')
        \<and> (blocksQueue cs' \<noteq> blocksQueue cs \<or> latestBlockNum cs' \<noteq> latestBlockNum cs))"
proof
  assume "\<exists>(cf :: 'r ChainFetcher) cs r latest err cs' r'.
        fetchAllPreviousBlocks cf cs r latest = Some (Inl err, cs', r')
        \<and> (blocksQueue cs' \<noteq> blocksQueue cs \<or> latestBlockNum cs' \<noteq> latestBlockNum cs)"
  then obtain cf :: "'r ChainFetcher" and cs r latest err cs' r' where
    e: "fetchAllPreviousBlocks cf cs r latest = Some (Inl err, cs', r')" and
    d: "blocksQueue cs' \<noteq> blocksQueue cs \<or> latestBlockNum cs' \<noteq> latestBlockNum cs"
    by blast
  from fetchAllPreviousBlocks_error [OF e] have "cs' = cs" by simp
  with d show False by simp
qed

text \<open>
  Claim C10, as amended. The queue that \<open>replaceBlocksQueue\<close> writes from the indexes and
  the new queue of a scan always has the length \<open>blocksToSave\<close>, so the check after it
  never fails and a repair never returns \<open>NotEnoughBlocksSaved\<close>; every error that a
  repair returns leaves the tracker unchanged.
\<close>

theorem repair_length_check_never_fails:
  "(make_slice (blocksToSave cs) = Some newq0
      \<and> readHashes_loop cf cs latest rd r 0 0 0 0 newq0 = Some (Inr (found, i, s, e, n, newq), r1)
      \<and> replaceBlocksQueue cs latest n s e newq copied = Some ((c, len, h), cs1)
      \<longrightarrow> len = blocksToSave cs1 \<and> \<not> len < blocksToSave cs1
          \<and> length (blocksQueue cs1) = unat (blocksToSave cs))
   \<and> fetchAllPreviousBlocks cf cs r latest \<noteq> Some (Inl NotEnoughBlocksSaved, cs', r')
   \<and> (fetchAllPreviousBlocks cf cs r latest = Some (Inl err, cs', r') \<longrightarrow> cs' = cs)"
proof (intro conjI impI)
  assume a: "make_slice (blocksToSave cs) = Some newq0
      \<and> readHashes_loop cf cs latest rd r 0 0 0 0 newq0 = Some (Inr (found, i, s, e, n, newq), r1)
      \<and> replaceBlocksQueue cs latest n s e newq copied = Some ((c, len, h), cs1)"
  then have 1: "make_slice (blocksToSave cs) = Some newq0"
    and 2: "readHashes_loop cf cs latest rd r 0 0 0 0 newq0
              = Some (Inr (found, i, s, e, n, newq), r1)"
    and 3: "replaceBlocksQueue cs latest n s e newq copied = Some ((c, len, h), cs1)"
    by simp_all
  from replaced_length_is_blocksToSave [OF 1 2 3]
  show "len = blocksToSave cs1" and "\<not> len < blocksToSave cs1"
    and "length (blocksQueue cs1) = unat (blocksToSave cs)"
    by simp_all
next
  show "fetchAllPreviousBlocks cf cs r latest \<noteq> Some (Inl NotEnoughBlocksSaved, cs', r')"
  proof
    assume "fetchAllPreviousBlocks cf cs r latest = Some (Inl NotEnoughBlocksSaved, cs', r')"
    from fetchAllPreviousBlocks_error [OF this] show False by simp
  qed
next
  assume "fetchAllPreviousBlocks cf cs r latest = Some (Inl err, cs', r')"
  from fetchAllPreviousBlocks_error [OF this] show "cs' = cs" by simp
qed

theorem repair_length_check_never_fails_witness:
  "replaceBlocksQueue tracker_100 101 3 1 4
      [\<lparr>Block = 0, Hash = []\<rparr>, \<lparr>Block = 0, Hash = []\<rparr>, \<lparr>Block = 0, Hash = []\<rparr>,
       \<lparr>Block = 101, Hash = ''h101''\<rparr>] 4
     = Some ((3, 4, ''h101''), tracker_101)
   \<and> \<not> (4 :: uint64) < blocksToSave tracker_101
   \<and> length (blocksQueue tracker_101) = unat (blocksToSave tracker_100)
   \<and> fetchAllPreviousBlocks failing_fetcher tracker_100 () 101
        = Some (Inl (CouldNotGetBlockData (FetcherError 1)), tracker_100, ())"
proof -
  let ?newq = "[\<lparr>Block = 0, Hash = []\<rparr>, \<lparr>Block = 0, Hash = []\<rparr>, \<lparr>Block = 0, Hash = []\<rparr>,
       \<lparr>Block = 101, Hash = ''h101''\<rparr>]"
  have a: "make_slice (blocksToSave tracker_100) = Some (replicate 4 \<lparr>Block = 0, Hash = []\<rparr>)
      \<and> readHashes_loop (static_fetcher 101 spec_hashes) tracker_100 101 1 () 0 0 0 0
            (replicate 4 \<lparr>Block = 0, Hash = []\<rparr>)
          = Some (Inr (True, 1, 1, 4, 3, ?newq), ())
      \<and> replaceBlocksQueue tracker_100 101 3 1 4 ?newq 4 = Some ((3, 4, ''h101''), tracker_101)"
    by code_simp
  have b: "fetchAllPreviousBlocks failing_fetcher tracker_100 () 101
        = Some (Inl (CouldNotGetBlockData (FetcherError 1)), tracker_100, ())"
    by code_simp
  from repair_length_check_never_fails [of tracker_100 "replicate 4 \<lparr>Block = 0, Hash = []\<rparr>"
         "static_fetcher 101 spec_hashes" 101 1 "()" True 1 1 4 3 ?newq "()" 4 3 4 "''h101''"
         tracker_101]
       repair_length_check_never_fails [of tracker_100 _ failing_fetcher 101 _ "()" _ _ _ _ _ _ _ _ _ _ _
         _ tracker_100 "()" "CouldNotGetBlockData (FetcherError 1)"]
       a b
  show ?thesis by simp
qed

lemma existing_idx_formula:
  assumes len: "length (blocksQueue cs) < 2 ^ 62"
    and rd0: "0 \<le> sint rd" and i0: "0 \<le> sint i"
    and rd: "\<not> of_nat (length (blocksQueue cs)) \<le>s rd"
  shows "sint (of_nat (length (blocksQueue cs)) - 1 + rd - i :: int64)
           = int (length (blocksQueue cs)) - 1 + sint rd - sint i"
proof -
  let ?saved = "of_nat (length (blocksQueue cs)) :: int64"
  let ?L = "int (length (blocksQueue cs))"
  have L62: "?L < 2 ^ 62"
    using len by (metis of_nat_less_iff of_nat_numeral of_nat_power)
  have "length (blocksQueue cs) < 2 ^ 63"
    using len by (rule less_trans) simp
  then have s: "sint ?saved = ?L" by (rule sint_of_nat_len)
  have rdL: "sint rd < ?L" using rd s by (simp add: word_sle_eq)
  have ihi: "sint i < 2 ^ 63" using sint_lt [of i] by simp
  have 1: "sint (?saved - 1) = ?L - 1"
    using sint_sub_range [of ?saved 1] s L62 by simp
  have 2: "sint (?saved - 1 + rd) = ?L - 1 + sint rd"
    using sint_add_range [of "?saved - 1" rd] 1 L62 rdL rd0 by simp
  have lo: "- (2 ^ 63) \<le> sint (?saved - 1 + rd) - sint i"
    using 2 L62 rdL rd0 i0 ihi by simp
  have hi: "sint (?saved - 1 + rd) - sint i < 2 ^ 63"
    using 2 L62 rdL rd0 i0 ihi by simp
  have "sint (?saved - 1 + rd - i) = sint (?saved - 1 + rd) - sint i"
    using lo hi by (rule sint_sub_range)
  then show ?thesis using 2 by simp
qed

section \<open>The overlap anchor\<close>

text \<open>
  Claim C2. At iteration \<open>i\<close> of the scan the overlap test looks at the existing index
  \<open>(len - 1 + readIndexDiff) - i\<close>. It accepts the anchor only if that index is strictly
  greater than 0 and at most \<open>len - 1\<close>, the record stored there has the fetched block
  number, and its hash is the fetched hash. In \<open>int64\<close> the index is the integer
  \<open>len - 1 + readIndexDiff - i\<close> whenever the test is not skipped, the queue is shorter
  than \<open>2 ^ 62\<close> and \<open>readIndexDiff\<close> and \<open>i\<close> are not negative. When the index is in
  range and the stored block number differs from the fetched one, the test answers
  "no overlap" with no error, and the scan stores the fetched record and goes on with
  iteration \<open>i + 1\<close>.
\<close>

theorem overlap_anchor_accepted_only_if:
  "(hashesOverlapIndexes cs readIndexDiff i fetchedBlockNum fetchedHash = Some (True, s, e, n)
      \<longrightarrow> 0 < sint (of_nat (length (blocksQueue cs)) - 1 + readIndexDiff - i :: int64)
          \<and> sint (of_nat (length (blocksQueue cs)) - 1 + readIndexDiff - i :: int64)
               \<le> int (length (blocksQueue cs)) - 1
          \<and> Block (blocksQueue cs ! nat (sint (of_nat (length (blocksQueue cs)) - 1
                                                   + readIndexDiff - i :: int64)))
               = fetchedBlockNum
          \<and> Hash (blocksQueue cs ! nat (sint (of_nat (length (blocksQueue cs)) - 1
                                                   + readIndexDiff - i :: int64)))
               = fetchedHash)
   \<and> (length (blocksQueue cs) < 2 ^ 62 \<and> 0 \<le> sint readIndexDiff \<and> 0 \<le> sint i
        \<and> \<not> of_nat (length (blocksQueue cs)) \<le>s readIndexDiff
      \<longrightarrow> sint (of_nat (length (blocksQueue cs)) - 1 + readIndexDiff - i :: int64)
            = int (length (blocksQueue cs)) - 1 + sint readIndexDiff - sint i)
   \<and> (0 <s of_nat (length (blocksQueue cs)) - 1 + readIndexDiff - i
        \<and> of_nat (length (blocksQueue cs)) - 1 + readIndexDiff - i
             \<le>s of_nat (length (blocksQueue cs)) - 1
        \<and> index_slice (blocksQueue cs) (of_nat (length (blocksQueue cs)) - 1 + readIndexDiff - i)
             = Some existing
        \<and> Block existing \<noteq> fetchedBlockNum
      \<longrightarrow> hashesOverlapIndexes cs readIndexDiff i fetchedBlockNum fetchedHash
            = Some (False, 0, 0, 0))
   \<and> (i <s blocksToSave cs
        \<and> fetchBlockHashByNum cf cs r (latestBlock - i) = (Inr fetchedHash, r1)
        \<and> hashesOverlapIndexes cs readIndexDiff i (latestBlock - i) fetchedHash
             = Some (False, 0, 0, 0)
        \<and> store_slice newq (blocksToSave cs - 1 - i) \<lparr>Block = latestBlock - i, Hash = fetchedHash\<rparr>
             = Some newq1
      \<longrightarrow> readHashes_loop cf cs latestBlock readIndexDiff r i s0 e0 n0 newq
            = readHashes_loop cf cs latestBlock readIndexDiff r1 (i + 1) 0 0 0 newq1)"
proof (intro conjI impI)
  let ?X = "of_nat (length (blocksQueue cs)) - 1 + readIndexDiff - i :: int64"
  assume "hashesOverlapIndexes cs readIndexDiff i fetchedBlockNum fetchedHash = Some (True, s, e, n)"
  note A = hashesOverlapIndexes_accept [OF this]
  from A show "0 < sint ?X" by (simp add: word_sless_alt)
  from A have "0 < sint ?X" "nat (sint ?X) < length (blocksQueue cs)"
    by (simp_all add: word_sless_alt)
  then show "sint ?X \<le> int (length (blocksQueue cs)) - 1" by linarith
  from A show "Block (blocksQueue cs ! nat (sint ?X)) = fetchedBlockNum" by simp
  from A show "Hash (blocksQueue cs ! nat (sint ?X)) = fetchedHash" by simp
next
  assume "length (blocksQueue cs) < 2 ^ 62 \<and> 0 \<le> sint readIndexDiff \<and> 0 \<le> sint i
        \<and> \<not> of_nat (length (blocksQueue cs)) \<le>s readIndexDiff"
  then show "sint (of_nat (length (blocksQueue cs)) - 1 + readIndexDiff - i :: int64)
            = int (length (blocksQueue cs)) - 1 + sint readIndexDiff - sint i"
    using existing_idx_formula [of cs readIndexDiff i] by blast
next
  assume "0 <s of_nat (length (blocksQueue cs)) - 1 + readIndexDiff - i
        \<and> of_nat (length (blocksQueue cs)) - 1 + readIndexDiff - i
             \<le>s of_nat (length (blocksQueue cs)) - 1
        \<and> index_slice (blocksQueue cs) (of_nat (length (blocksQueue cs)) - 1 + readIndexDiff - i)
             = Some existing
        \<and> Block existing \<noteq> fetchedBlockNum"
  then show "hashesOverlapIndexes cs readIndexDiff i fetchedBlockNum fetchedHash
            = Some (False, 0, 0, 0)"
    using hashesOverlapIndexes_mismatch [of cs readIndexDiff i existing fetchedBlockNum fetchedHash]
    by blast
next
  assume "i <s blocksToSave cs
        \<and> fetchBlockHashByNum cf cs r (latestBlock - i) = (Inr fetchedHash, r1)
        \<and> hashesOverlapIndexes cs readIndexDiff i (latestBlock - i) fetchedHash
             = Some (False, 0, 0, 0)
        \<and> store_slice newq (blocksToSave cs - 1 - i) \<lparr>Block = latestBlock - i, Hash = fetchedHash\<rparr>
             = Some newq1"
  then show "readHashes_loop cf cs latestBlock readIndexDiff r i s0 e0 n0 newq
            = readHashes_loop cf cs latestBlock readIndexDiff r1 (i + 1) 0 0 0 newq1"
    using readHashes_loop_step [of i cs cf r latestBlock fetchedHash r1 readIndexDiff 0 0 0 newq newq1]
    by blast
qed


theorem overlap_anchor_accepted_only_if_witness:
  "hashesOverlapIndexes tracker_100 1 1 100 ''h100'' = Some (True, 1, 4, 3)
   \<and> sint (of_nat (length (blocksQueue tracker_100)) - 1 + 1 - 1 :: int64) = 3
   \<and> Block (blocksQueue tracker_100 ! 3) = 100 \<and> Hash (blocksQueue tracker_100 ! 3) = ''h100''
   \<and> hashesOverlapIndexes tracker_mismatch 0 0 100 ''h100'' = Some (False, 0, 0, 0)
   \<and> readHashes_loop (static_fetcher 100 spec_hashes) tracker_mismatch 100 0 () 0 0 0 0
        (replicate 4 \<lparr>Block = 0, Hash = []\<rparr>)
      = Some (Inr (True, 1, 0, 3, 3,
                   [\<lparr>Block = 0, Hash = []\<rparr>, \<lparr>Block = 0, Hash = []\<rparr>, \<lparr>Block = 0, Hash = []\<rparr>,
                    \<lparr>Block = 100, Hash = ''h100''\<rparr>]), ())"
proof -
  let ?cf = "static_fetcher 100 spec_hashes"
  let ?q0 = "replicate 4 \<lparr>Block = 0, Hash = []\<rparr>"
  let ?q1 = "[\<lparr>Block = 0, Hash = []\<rparr>, \<lparr>Block = 0, Hash = []\<rparr>, \<lparr>Block = 0, Hash = []\<rparr>,
              \<lparr>Block = 100, Hash = ''h100''\<rparr>]"
  have a: "hashesOverlapIndexes tracker_100 1 1 100 ''h100'' = Some (True, 1, 4, 3)"
    by code_simp
  have b: "length (blocksQueue tracker_100) < 2 ^ 62 \<and> 0 \<le> sint (1 :: int64) \<and> 0 \<le> sint (1 :: int64)
        \<and> \<not> of_nat (length (blocksQueue tracker_100)) \<le>s (1 :: int64)"
    by (simp add: tracker_100_def word_sle_eq)
  have c: "0 <s of_nat (length (blocksQueue tracker_mismatch)) - 1 + 0 - (0 :: int64)
        \<and> of_nat (length (blocksQueue tracker_mismatch)) - 1 + 0 - (0 :: int64)
             \<le>s of_nat (length (blocksQueue tracker_mismatch)) - 1
        \<and> index_slice (blocksQueue tracker_mismatch)
             (of_nat (length (blocksQueue tracker_mismatch)) - 1 + 0 - 0)
             = Some \<lparr>Block = 555, Hash = ''h100''\<rparr>
        \<and> Block \<lparr>Block = 555, Hash = ''h100''\<rparr> \<noteq> (100 :: int64)"
    by code_simp
  have d: "(0 :: int64) <s blocksToSave tracker_mismatch
        \<and> fetchBlockHashByNum ?cf tracker_mismatch () (100 - 0) = (Inr ''h100'', ())
        \<and> hashesOverlapIndexes tracker_mismatch 0 0 (100 - 0) ''h100'' = Some (False, 0, 0, 0)
        \<and> store_slice ?q0 (blocksToSave tracker_mismatch - 1 - 0) \<lparr>Block = 100 - 0, Hash = ''h100''\<rparr>
             = Some ?q1"
    by code_simp
  have e: "readHashes_loop ?cf tracker_mismatch 100 0 () (0 + 1) 0 0 0 ?q1
             = Some (Inr (True, 1, 0, 3, 3, ?q1), ())"
    by code_simp
  have f: "length (blocksQueue tracker_100) = 4" "blocksQueue tracker_100 ! 3 = \<lparr>Block = 100, Hash = ''h100''\<rparr>"
    by (simp_all add: tracker_100_def)
  from overlap_anchor_accepted_only_if [of tracker_100 1 1 100 "''h100''" 1 4 3]
       overlap_anchor_accepted_only_if [of tracker_mismatch 0 0 100 "''h100''" _ _ _
          "\<lparr>Block = 555, Hash = ''h100''\<rparr>" ?cf "()" 100 "()" ?q0 ?q1 0 0 0]
       a b c d e f
  show ?thesis by simp
qed

section \<open>The splice\<close>

lemma replaceBlocksQueue_Some:
  assumes "0 <s n \<longrightarrow> 0 \<le>s s \<and> s \<le>s e \<and> nat (sint e) \<le> length (blocksQueue cs)
                       \<and> nat (sint n) \<le> length newq"
  shows "\<exists>c len h cs1. replaceBlocksQueue cs latest n s e newq copied = Some ((c, len, h), cs1)"
proof (cases "0 <s n")
  case False
  then show ?thesis by (simp add: replaceBlocksQueue_def Let_def)
next
  case True
  then have "0 \<le>s n" by (simp add: word_sless_alt word_sle_eq)
  with True assms show ?thesis
    by (simp add: replaceBlocksQueue_def Let_def setLatestBlockNum_def slice_range_def slice_from_def)
qed

lemma read_diff_nonneg:
  assumes "\<not> latest <s (cur :: int64)" and "sint latest - sint cur < 2 ^ 63"
  shows "sint (latest - cur) = sint latest - sint cur" and "0 \<le> sint (latest - cur)"
proof -
  have ge: "0 \<le> sint latest - sint cur" using assms(1) by (simp add: word_sless_alt)
  then have lo: "- (2 ^ 63) \<le> sint latest - sint cur" by simp
  show 1: "sint (latest - cur) = sint latest - sint cur"
    using lo assms(2) by (rule sint_sub_range)
  show "0 \<le> sint (latest - cur)" using 1 ge by simp
qed

lemma accepted_anchor_indexes:
  assumes acc: "hashesOverlapIndexes cs rd (of_nat m) fetched h = Some (True, s, e, n)"
    and rd0: "0 \<le> sint rd"
    and len: "length (blocksQueue cs) < 2 ^ 62"
    and m: "m < 2 ^ 62"
  shows "sint s = sint rd" and "sint e = int (length (blocksQueue cs)) + sint rd - int m"
    and "sint n = int (length (blocksQueue cs)) - int m"
    and "sint rd \<le> int m" and "int m < int (length (blocksQueue cs)) + sint rd - 1"
    and "0 \<le> sint n" and "sint rd < int (length (blocksQueue cs))"
proof -
  let ?L = "int (length (blocksQueue cs))"
  let ?X = "of_nat (length (blocksQueue cs)) - 1 + rd - of_nat m :: int64"
  note A = hashesOverlapIndexes_accept [OF acc]
  have m63: "m < 2 ^ 63" using m by (rule less_trans) simp
  have sm: "sint (of_nat m :: int64) = int m" by (rule sint_of_nat_len [OF m63])
  have L62: "?L < 2 ^ 62"
    using len by (metis of_nat_less_iff of_nat_numeral of_nat_power)
  have X: "sint ?X = ?L - 1 + sint rd - int m"
    using existing_idx_formula [OF len rd0 _ conjunct1 [OF conjunct2 [OF conjunct2 [OF conjunct2
      [OF conjunct2 [OF conjunct2 [OF conjunct2 [OF conjunct2 [OF A]]]]]]]], of "of_nat m"] sm
    by simp
  have "length (blocksQueue cs) < 2 ^ 63" using len by (rule less_trans) simp
  then have sv: "sint (of_nat (length (blocksQueue cs)) :: int64) = ?L" by (rule sint_of_nat_len)
  show rdL: "sint rd < ?L" using A sv by (simp add: word_sle_eq)
  have Xpos: "0 < sint ?X" and Xlt: "nat (sint ?X) < length (blocksQueue cs)"
    using A by (simp_all add: word_sless_alt)
  have Xlt': "sint ?X < ?L" using Xpos Xlt by linarith
  have e1: "sint (?X + 1) = sint ?X + 1"
    using sint_add_range [of ?X 1] Xpos Xlt' L62 by simp
  show "sint s = sint rd" using A by simp
  show se: "sint e = ?L + sint rd - int m" using A e1 X by simp
  have n: "sint (e - s) = sint e - sint s"
    using sint_sub_range [of e s] se A rd0 rdL L62 m
    by (simp add: \<open>sint s = sint rd\<close>)
  then show sn: "sint n = ?L - int m" using A se by simp
  show "sint rd \<le> int m" using X Xlt' by linarith
  show "int m < ?L + sint rd - 1" using X Xpos by linarith
  have "\<not> e <s rd" using A by simp
  then show "0 \<le> sint n" using sn se by (simp add: word_sless_alt)
qed


lemma repair_of_scan:
  assumes mk: "make_slice (blocksToSave cs) = Some newq0"
    and ok: "\<not> latest <s GetLatestBlockNum cs"
    and scan: "readHashes_loop cf cs latest (latest - GetLatestBlockNum cs) r 0 0 0 0 newq0
                 = Some (Inr (found, i, s, e, n, newq), r')"
    and rep: "replaceBlocksQueue cs latest n s e newq (blocksToSave cs) = Some ((c, len, h), cs1)"
  shows "\<exists>cs'. fetchAllPreviousBlocks cf cs r latest = Some (Inr h, cs', r')
           \<and> blocksQueue cs' = blocksQueue cs1 \<and> latestBlockNum cs' = latestBlockNum cs1"
proof -
  from replaced_length_is_blocksToSave [OF mk scan rep]
  have nl: "\<not> len < blocksToSave cs1" by simp
  note eq = fetchAllPreviousBlocks_replaced [OF mk ok scan rep]
  show ?thesis
  proof (cases "1 <s latest - GetLatestBlockNum cs
                  \<or> blockCheckpoint cs1 + blockCheckpointDistance cs1 < latest")
    case True
    with eq nl have "fetchAllPreviousBlocks cf cs r latest
                       = Some (Inr h, cs1\<lparr>blockCheckpoint := latest\<rparr>, r')"
      by simp
    then show ?thesis by simp
  next
    case False
    with eq nl have "fetchAllPreviousBlocks cf cs r latest = Some (Inr h, cs1, r')"
      by simp
    then show ?thesis by simp
  qed
qed

text \<open>
  Claim C1. A repair whose scan ends without a fetch error returns, and the window it
  leaves has exactly \<open>blocksToSave\<close> records. When the scan stops at an accepted overlap
  anchor at iteration \<open>i\<close>, the splice indexes are \<open>s = readIndexDiff\<close>,
  \<open>e = overwrite = existing_idx + 1\<close> and \<open>n = overwrite - readIndexDiff\<close>, the two
  conditions of the splice policy hold, and the window is
  \<open>existing[readIndexDiff .. overwrite] ++ new_queue[overwrite - readIndexDiff ..]\<close>. When no
  anchor is accepted the scan has run all \<open>blocksToSave\<close> iterations and the window is
  the new queue; this is always so when \<open>readIndexDiff \<ge> len\<close>. The statement is for a
  latest block not below the current one whose distance to it fits an \<open>int64\<close>, and a
  window no longer than \<open>blocksToSave < 2 ^ 62\<close>.
\<close>

theorem splice_or_wholesale_replace:
  assumes mk: "make_slice (blocksToSave cs) = Some newq0"
    and ok: "\<not> latest <s GetLatestBlockNum cs"
    and rd: "sint latest - sint (GetLatestBlockNum cs) < 2 ^ 63"
    and len: "length (blocksQueue cs) \<le> unat (blocksToSave cs)"
    and bts: "unat (blocksToSave cs) < 2 ^ 62"
    and scan: "readHashes_loop cf cs latest (latest - GetLatestBlockNum cs) r 0 0 0 0 newq0
                 = Some (Inr (found, i, s, e, n, newq), r')"
  shows "\<exists>h cs'. fetchAllPreviousBlocks cf cs r latest = Some (Inr h, cs', r')
      \<and> length (blocksQueue cs') = unat (blocksToSave cs)
      \<and> (found \<longrightarrow>
            s = latest - GetLatestBlockNum cs
          \<and> e = of_nat (length (blocksQueue cs)) - 1 + (latest - GetLatestBlockNum cs) - i + 1
          \<and> n = e - s
          \<and> \<not> e <s blocksToSave cs - 1 - i \<and> \<not> e <s s
          \<and> sint s = sint latest - sint (GetLatestBlockNum cs)
          \<and> sint e = int (length (blocksQueue cs)) + sint s - sint i
          \<and> sint n = sint e - sint s
          \<and> blocksQueue cs' = take (nat (sint e) - nat (sint s)) (drop (nat (sint s)) (blocksQueue cs))
                                 @ drop (nat (sint n)) newq)
      \<and> (\<not> found \<longrightarrow> i = blocksToSave cs \<and> blocksQueue cs' = newq)
      \<and> (of_nat (length (blocksQueue cs)) \<le>s latest - GetLatestBlockNum cs \<longrightarrow> \<not> found)"
proof -
  let ?rd = "latest - GetLatestBlockNum cs"
  let ?L = "int (length (blocksQueue cs))"
  let ?B = "unat (blocksToSave cs)"
  note RD = read_diff_nonneg [OF ok rd]
  from scan_result [OF mk scan] obtain m where
    m: "i = of_nat m" "m \<le> ?B" "length newq = ?B"
       "found \<longrightarrow> m < ?B \<and> (\<exists>h. hashesOverlapIndexes cs ?rd (of_nat m) (latest - of_nat m) h
                                   = Some (True, s, e, n))"
       "\<not> found \<longrightarrow> m = ?B \<and> s = 0 \<and> e = 0 \<and> n = 0"
    by blast
  have len62: "length (blocksQueue cs) < 2 ^ 62" using len bts by simp
  have m62: "found \<Longrightarrow> m < 2 ^ 62" using m(4) bts by simp
  have sm: "found \<Longrightarrow> sint i = int m"
    using m(1) m62 sint_of_nat_len [of m] by simp
  show ?thesis
  proof (cases found)
    case True
    with m(4) obtain h0 where
      acc: "hashesOverlapIndexes cs ?rd (of_nat m) (latest - of_nat m) h0 = Some (True, s, e, n)"
      by blast
    note A = hashesOverlapIndexes_accept [OF acc]
    note I = accepted_anchor_indexes [OF acc RD(2) len62 m62 [OF True]]
    have e_le: "nat (sint e) \<le> length (blocksQueue cs)"
      using I(2,4) by linarith
    have n_le: "nat (sint n) \<le> length newq"
      using I(3) m(3) len by linarith
    have "0 \<le>s s" "s \<le>s e"
      using I RD by (simp_all add: word_sle_eq)
    with e_le n_le
    have pre: "0 <s n \<longrightarrow> 0 \<le>s s \<and> s \<le>s e \<and> nat (sint e) \<le> length (blocksQueue cs)
                       \<and> nat (sint n) \<le> length newq"
      by simp
    from replaceBlocksQueue_Some [OF pre, of latest "blocksToSave cs"]
    obtain c ln h cs1 where
      rep: "replaceBlocksQueue cs latest n s e newq (blocksToSave cs) = Some ((c, ln, h), cs1)"
      by blast
    note R = replaceBlocksQueue_result [OF rep]
    from repair_of_scan [OF mk ok scan rep] obtain cs' where
      cs': "fetchAllPreviousBlocks cf cs r latest = Some (Inr h, cs', r')"
           "blocksQueue cs' = blocksQueue cs1"
      by blast
    have q1: "blocksQueue cs1 = (if 0 <s n
                then take (nat (sint e) - nat (sint s)) (drop (nat (sint s)) (blocksQueue cs))
                       @ drop (nat (sint n)) newq
                else newq)"
      by (subst conjunct1 [OF R]) simp
    have q: "blocksQueue cs1 = take (nat (sint e) - nat (sint s)) (drop (nat (sint s)) (blocksQueue cs))
                       @ drop (nat (sint n)) newq"
    proof (cases "0 <s n")
      case True
      with q1 show ?thesis by simp
    next
      case False
      then have "sint n = 0" using I(6) by (simp add: word_sless_alt)
      then have "nat (sint e) - nat (sint s) = 0" "nat (sint n) = 0"
        using I by simp_all
      with q1 False show ?thesis by simp
    qed
    have l: "length (blocksQueue cs') = ?B"
      using fetchAllPreviousBlocks_success [OF cs'(1)] by simp
    have "s = ?rd"
      "e = of_nat (length (blocksQueue cs)) - 1 + ?rd - i + 1" "n = e - s"
      "\<not> e <s blocksToSave cs - 1 - i" "\<not> e <s s"
      using A m(1) by simp_all
    moreover have "sint s = sint latest - sint (GetLatestBlockNum cs)"
      "sint e = ?L + sint s - sint i" "sint n = sint e - sint s"
      using I RD sm [OF True] by simp_all
    moreover have "\<not> of_nat (length (blocksQueue cs)) \<le>s ?rd" using A by simp
    ultimately show ?thesis
      using cs' q l True by (intro exI [of _ h] exI [of _ cs']) simp
  next
    case False
    with m(5) have z: "m = ?B" "s = 0" "e = 0" "n = 0" by simp_all
    have pre: "0 <s n \<longrightarrow> 0 \<le>s s \<and> s \<le>s e \<and> nat (sint e) \<le> length (blocksQueue cs)
                       \<and> nat (sint n) \<le> length newq"
      using z by simp
    from replaceBlocksQueue_Some [OF pre, of latest "blocksToSave cs"]
    obtain c ln h cs1 where
      rep: "replaceBlocksQueue cs latest n s e newq (blocksToSave cs) = Some ((c, ln, h), cs1)"
      by blast
    note R = replaceBlocksQueue_result [OF rep]
    from repair_of_scan [OF mk ok scan rep] obtain cs' where
      cs': "fetchAllPreviousBlocks cf cs r latest = Some (Inr h, cs', r')"
           "blocksQueue cs' = blocksQueue cs1"
      by blast
    have q: "blocksQueue cs1 = newq"
      by (subst conjunct1 [OF R]) (simp add: z)
    have l: "length (blocksQueue cs') = ?B"
      using fetchAllPreviousBlocks_success [OF cs'(1)] by simp
    have "i = blocksToSave cs" using m(1) z(1) by simp
    then show ?thesis
      using cs' q l False by (intro exI [of _ h] exI [of _ cs']) simp
  qed
qed



theorem splice_or_wholesale_replace_witness:
  "(\<exists>h cs'. fetchAllPreviousBlocks (static_fetcher 101 spec_hashes) tracker_100 () 101
               = Some (Inr h, cs', ())
        \<and> length (blocksQueue cs') = 4
        \<and> blocksQueue cs' = take 3 (drop 1 (blocksQueue tracker_100))
                               @ drop 3 [\<lparr>Block = 0, Hash = []\<rparr>, \<lparr>Block = 0, Hash = []\<rparr>,
                                         \<lparr>Block = 0, Hash = []\<rparr>, \<lparr>Block = 101, Hash = ''h101''\<rparr>])
   \<and> (\<exists>h cs'. fetchAllPreviousBlocks (static_fetcher 108 (\<lambda>b. ''x'')) tracker_104 () 108
               = Some (Inr h, cs', ())
        \<and> length (blocksQueue cs') = 4
        \<and> blocksQueue cs' = [\<lparr>Block = 105, Hash = ''x''\<rparr>, \<lparr>Block = 106, Hash = ''x''\<rparr>,
                              \<lparr>Block = 107, Hash = ''x''\<rparr>, \<lparr>Block = 108, Hash = ''x''\<rparr>])"
proof -
  let ?q0 = "replicate 4 \<lparr>Block = 0, Hash = []\<rparr>"
  have mk1: "make_slice (blocksToSave tracker_100) = Some ?q0" by code_simp
  have ok1: "\<not> 101 <s GetLatestBlockNum tracker_100" by code_simp
  have rd1: "sint (101 :: int64) - sint (GetLatestBlockNum tracker_100) < 2 ^ 63"
    by (simp add: GetLatestBlockNum_def tracker_100_def)
  have len1: "length (blocksQueue tracker_100) \<le> unat (blocksToSave tracker_100)"
    by (simp add: tracker_100_def)
  have bts1: "unat (blocksToSave tracker_100) < 2 ^ 62"
    by (simp add: tracker_100_def)
  have scan1: "readHashes_loop (static_fetcher 101 spec_hashes) tracker_100 101
                 (101 - GetLatestBlockNum tracker_100) () 0 0 0 0 ?q0
               = Some (Inr (True, 1, 1, 4, 3,
                            [\<lparr>Block = 0, Hash = []\<rparr>, \<lparr>Block = 0, Hash = []\<rparr>,
                             \<lparr>Block = 0, Hash = []\<rparr>, \<lparr>Block = 101, Hash = ''h101''\<rparr>]), ())"
    by code_simp
  have mk2: "make_slice (blocksToSave tracker_104) = Some ?q0" by code_simp
  have ok2: "\<not> 108 <s GetLatestBlockNum tracker_104" by code_simp
  have rd2: "sint (108 :: int64) - sint (GetLatestBlockNum tracker_104) < 2 ^ 63"
    by (simp add: GetLatestBlockNum_def tracker_104_def)
  have len2: "length (blocksQueue tracker_104) \<le> unat (blocksToSave tracker_104)"
    by (simp add: tracker_104_def)
  have bts2: "unat (blocksToSave tracker_104) < 2 ^ 62"
    by (simp add: tracker_104_def)
  have scan2: "readHashes_loop (static_fetcher 108 (\<lambda>b. ''x'')) tracker_104 108
                 (108 - GetLatestBlockNum tracker_104) () 0 0 0 0 ?q0
               = Some (Inr (False, 4, 0, 0, 0,
                            [\<lparr>Block = 105, Hash = ''x''\<rparr>, \<lparr>Block = 106, Hash = ''x''\<rparr>,
                             \<lparr>Block = 107, Hash = ''x''\<rparr>, \<lparr>Block = 108, Hash = ''x''\<rparr>]), ())"
    by code_simp
  have u: "unat (blocksToSave tracker_100) = 4" "unat (blocksToSave tracker_104) = 4"
    by (simp_all add: tracker_100_def tracker_104_def)
  from splice_or_wholesale_replace [OF mk1 ok1 rd1 len1 bts1 scan1]
       splice_or_wholesale_replace [OF mk2 ok2 rd2 len2 bts2 scan2]
  show ?thesis by (simp add: u) blast
qed

section \<open>A successful repair keeps the window invariant\<close>

lemma contiguous_affine:
  "(\<And>p. p < length xs \<Longrightarrow> sint (Block (xs ! p)) = c + int p) \<Longrightarrow> contiguous xs"
proof (induction xs arbitrary: c rule: contiguous.induct)
  case (3 a b rest)
  have a: "sint (Block a) = c" using "3.prems" [of 0] by simp
  have b: "sint (Block b) = c + 1" using "3.prems" [of 1] by simp
  have "contiguous (b # rest)"
  proof (rule "3.IH")
    fix p assume "p < length (b # rest)"
    then have "Suc p < length (a # b # rest)" by simp
    from "3.prems" [OF this] show "sint (Block ((b # rest) ! p)) = (c + 1) + int p" by simp
  qed
  with a b show ?case by simp
qed simp_all

lemma contiguous_nth:
  "contiguous xs \<Longrightarrow> p < length xs \<Longrightarrow> sint (Block (xs ! p)) = sint (Block (xs ! 0)) + int p"
proof (induction xs arbitrary: p rule: contiguous.induct)
  case (3 a b rest)
  show ?case
  proof (cases p)
    case 0
    then show ?thesis by simp
  next
    case (Suc p')
    with "3.prems" have "p' < length (b # rest)" "contiguous (b # rest)" by simp_all
    from "3.IH" [OF this(2,1)] "3.prems"(1) Suc show ?thesis by simp
  qed
qed simp_all

lemma contiguous_from_last:
  assumes "contiguous xs" and "p < length xs"
  shows "sint (Block (xs ! p)) = sint (Block (xs ! (length xs - 1))) - (int (length xs) - 1 - int p)"
proof -
  have l: "length xs - 1 < length xs" using assms(2) by simp
  from contiguous_nth [OF assms(1) l] contiguous_nth [OF assms(1,2)] assms(2)
  show ?thesis by simp
qed

lemma sint_inject64: "sint (a :: int64) = sint b \<Longrightarrow> a = b"
  by (rule word_eq_iff_signed [THEN iffD2])


lemma sint_latest_minus:
  assumes "0 \<le> sint (latest :: int64)" and "j < 2 ^ 62"
  shows "sint (latest - of_nat j) = sint latest - int j"
proof -
  have j63: "j < 2 ^ 63" using assms(2) by (rule less_trans) simp
  have sj: "sint (of_nat j :: int64) = int j" by (rule sint_of_nat_len [OF j63])
  have j: "int j < 2 ^ 62"
    using assms(2) by (metis of_nat_less_iff of_nat_numeral of_nat_power)
  have hi: "sint latest < 2 ^ 63" using sint_lt [of latest] by simp
  have "sint (latest - of_nat j) = sint latest - sint (of_nat j :: int64)"
    using sint_sub_range [of latest "of_nat j"] assms(1) j hi sj by simp
  then show ?thesis using sj by simp
qed

lemma window_from_affine:
  assumes B: "0 < unat (blocksToSave cs')" and len: "length (blocksQueue cs') = unat (blocksToSave cs')"
    and aff: "\<And>p. p < unat (blocksToSave cs')
               \<Longrightarrow> sint (Block (blocksQueue cs' ! p))
                    = sint (latestBlockNum cs') - (int (unat (blocksToSave cs')) - 1 - int p)"
  shows "window_invariant cs'"
proof -
  let ?B = "unat (blocksToSave cs')"
  have c: "contiguous (blocksQueue cs')"
  proof (rule contiguous_affine [where c = "sint (latestBlockNum cs') - (int ?B - 1)"])
    fix p assume "p < length (blocksQueue cs')"
    then have "p < ?B" using len by simp
    from aff [OF this]
    show "sint (Block (blocksQueue cs' ! p)) = sint (latestBlockNum cs') - (int ?B - 1) + int p"
      by simp
  qed
  have "?B - 1 < ?B" using B by simp
  from aff [OF this] B
  have "sint (Block (blocksQueue cs' ! (?B - 1))) = sint (latestBlockNum cs')"
    by simp
  then have "Block (blocksQueue cs' ! (?B - 1)) = latestBlockNum cs'"
    by (rule sint_inject64)
  then have "GetLatestBlockNum cs' = Block (getLatestBlockUnsafe cs')"
    using B len by (simp add: GetLatestBlockNum_def getLatestBlockUnsafe_def)
  with c len show ?thesis by (simp add: window_invariant_def)
qed


lemma repair_preserves_invariant:
  assumes range: "tracker_range cs"
    and inv: "window_invariant cs \<or> blocksQueue cs = [] \<and> latestBlockNum cs = 0"
    and succ: "fetchAllPreviousBlocks cf cs r latest = Some (Inr h, cs', r')"
  shows "window_invariant cs' \<and> tracker_range cs'"
proof -
  let ?B = "unat (blocksToSave cs)"
  let ?cur = "GetLatestBlockNum cs"
  let ?rd = "latest - ?cur"
  let ?q = "blocksQueue cs"
  note S = fetchAllPreviousBlocks_success [OF succ]
  have B0: "0 < ?B" and B62: "?B < 2 ^ 62" and cur0: "0 \<le> sint ?cur"
    using range by (simp_all add: tracker_range_def word_sle_eq GetLatestBlockNum_def)
  have ok: "\<not> latest <s ?cur" using S by (simp add: GetLatestBlockNum_def)
  have lat0: "0 \<le> sint latest" using ok cur0 by (simp add: word_sless_alt)
  have "sint latest < 2 ^ 63" using sint_lt [of latest] by simp
  then have rdb: "sint latest - sint ?cur < 2 ^ 63" using cur0 by linarith
  note RD = read_diff_nonneg [OF ok rdb]
  have range': "tracker_range cs'"
    using S B0 B62 lat0 by (simp add: tracker_range_def word_sle_eq)
  have aff: "sint (Block (blocksQueue cs' ! p)) = sint latest - (int ?B - 1 - int p)"
    if p: "p < ?B" for p
    using succ
  proof (cases rule: fetchAllPreviousBlocks_Some)
    case (replaced newq0 found i s e n newq c len h1 cs1)
    note R = replaceBlocksQueue_result [OF replaced(4)]
    note L = replaced_length_is_blocksToSave [OF replaced(1,3,4)]
    have q1: "blocksQueue cs1 = (if 0 <s n
                then take (nat (sint e) - nat (sint s)) (drop (nat (sint s)) ?q)
                       @ drop (nat (sint n)) newq
                else newq)"
      by (subst conjunct1 [OF R]) simp
    have "\<not> len < blocksToSave cs1" using L by simp
    with replaced(5) have "cs' = cs1 \<or> cs' = cs1\<lparr>blockCheckpoint := latest\<rparr>"
      by (auto split: if_splits)
    then have q': "blocksQueue cs' = blocksQueue cs1" by auto
    from scan_result [OF replaced(1,3)] obtain m where
      m: "i = of_nat m" "m \<le> ?B" "length newq = ?B"
         "\<forall>j. j < m \<longrightarrow> Block (newq ! (?B - 1 - j)) = latest - of_nat j"
         "found \<longrightarrow> m < ?B \<and> (\<exists>h. hashesOverlapIndexes cs ?rd (of_nat m) (latest - of_nat m) h
                                   = Some (True, s, e, n))"
         "\<not> found \<longrightarrow> m = ?B \<and> s = 0 \<and> e = 0 \<and> n = 0"
      by blast
    have fromnew: "sint (Block (newq ! p)) = sint latest - (int ?B - 1 - int p)"
      if "?B - 1 - p < m"
    proof -
      have "Block (newq ! (?B - 1 - (?B - 1 - p))) = latest - of_nat (?B - 1 - p)"
        using m(4) that by blast
      moreover have "?B - 1 - (?B - 1 - p) = p" using p by simp
      ultimately have "Block (newq ! p) = latest - of_nat (?B - 1 - p)" by simp
      moreover have "?B - 1 - p < 2 ^ 62" using B62 by simp
      ultimately have "sint (Block (newq ! p)) = sint latest - int (?B - 1 - p)"
        using sint_latest_minus [OF lat0, of "?B - 1 - p"] by simp
      then show ?thesis using p by linarith
    qed
    show ?thesis
    proof (cases found)
      case False
      with m(6) have z: "m = ?B" "n = 0" by simp_all
      have "blocksQueue cs' = newq" using q' q1 z by simp
      moreover have "?B - 1 - p < m" using z B0 by simp
      ultimately show ?thesis using fromnew by simp
    next
      case True
      with m(5) obtain h0 where mB: "m < ?B" and
        acc: "hashesOverlapIndexes cs ?rd (of_nat m) (latest - of_nat m) h0 = Some (True, s, e, n)"
        by blast
      note A = hashesOverlapIndexes_accept [OF acc]
      have nonempty: "?q \<noteq> []"
      proof
        assume "?q = []"
        then have "(of_nat (length ?q) :: int64) \<le>s ?rd" using RD(2) by (simp add: word_sle_eq)
        with A show False by simp
      qed
      with inv have winv: "window_invariant cs" by simp
      then have lenq: "length ?q = ?B" and cont: "contiguous ?q"
        and last: "?cur = Block (?q ! (?B - 1))"
        using nonempty by (simp_all add: window_invariant_def getLatestBlockUnsafe_def)
      have len62: "length ?q < 2 ^ 62" using lenq B62 by simp
      have m62: "m < 2 ^ 62" using mB B62 by simp
      note I = accepted_anchor_indexes [OF acc RD(2) len62 m62]
      have "0 < sint n" using I(3) mB lenq by linarith
      then have npos: "0 <s n" by (simp add: word_sless_alt)
      have S': "nat (sint s) = nat (sint ?rd)" using I(1) by simp
      have ES: "nat (sint e) - nat (sint s) = ?B - m"
        using I(1,2,4) RD(2) lenq mB by linarith
      have N: "nat (sint n) = ?B - m" using I(3) lenq mB by linarith
      have Q: "blocksQueue cs' = take (?B - m) (drop (nat (sint ?rd)) ?q) @ drop (?B - m) newq"
        using q' q1 npos S' ES N by simp
      have Sm: "nat (sint ?rd) \<le> m" using I(4) RD(2) by linarith
      have lt: "length (take (?B - m) (drop (nat (sint ?rd)) ?q)) = ?B - m"
        using lenq Sm mB by simp
      show ?thesis
      proof (cases "p < ?B - m")
        case True
        have idx: "nat (sint ?rd) + p < ?B" using True Sm by linarith
        have "blocksQueue cs' ! p = ?q ! (nat (sint ?rd) + p)"
          using Q True lt lenq idx by (simp add: nth_append)
        moreover have "sint (Block (?q ! (nat (sint ?rd) + p)))
                 = sint (Block (?q ! (?B - 1))) - (int ?B - 1 - int (nat (sint ?rd) + p))"
          using contiguous_from_last [OF cont, of "nat (sint ?rd) + p"] idx lenq by simp
        ultimately show ?thesis
          using last RD by simp
      next
        case False
        then have "blocksQueue cs' ! p = newq ! p"
          using Q lt p m(3) by (simp add: nth_append)
        moreover have "?B - 1 - p < m" using False p mB by linarith
        ultimately show ?thesis using fromnew by simp
      qed
    qed
  qed simp_all
  have "window_invariant cs'"
  proof (rule window_from_affine)
    show "0 < unat (blocksToSave cs')" using S B0 by simp
    show "length (blocksQueue cs') = unat (blocksToSave cs')" using S by simp
    fix p assume "p < unat (blocksToSave cs')"
    then have "p < ?B" using S by simp
    from aff [OF this] S
    show "sint (Block (blocksQueue cs' ! p))
            = sint (latestBlockNum cs') - (int (unat (blocksToSave cs')) - 1 - int p)"
      by simp
  qed
  with range' show ?thesis by simp
qed

lemma retry_success:
  "fetchAllPreviousBlocks_retry cf l k (fetchAllPreviousBlocks cf cs ra l) = Some (Inr h, cs', r')
   \<Longrightarrow> \<exists>rb. fetchAllPreviousBlocks cf cs rb l = Some (Inr h, cs', r')"
proof (induction k arbitrary: ra)
  case 0
  show ?case
  proof (cases "fetchAllPreviousBlocks cf cs ra l")
    case None
    with "0.prems" show ?thesis by simp
  next
    case (Some x)
    with "0.prems" have "fetchAllPreviousBlocks cf cs ra l = Some (Inr h, cs', r')" by simp
    then show ?thesis by blast
  qed
next
  case (Suc k)
  show ?case
  proof (cases "fetchAllPreviousBlocks cf cs ra l")
    case None
    with Suc.prems show ?thesis by simp
  next
    case (Some x)
    obtain res cs1 r1 where x: "x = (res, cs1, r1)" by (cases x)
    show ?thesis
    proof (cases res)
      case (Inr h1)
      with Suc.prems Some x have "fetchAllPreviousBlocks cf cs ra l = Some (Inr h, cs', r')"
        by simp
      then show ?thesis by blast
    next
      case (Inl err)
      have e: "fetchAllPreviousBlocks cf cs ra l = Some (Inl err, cs1, r1)"
        using Some x Inl by simp
      from fetchAllPreviousBlocks_error [OF e] have "cs1 = cs" by simp
      with Suc.prems e
      have "fetchAllPreviousBlocks_retry cf l k (fetchAllPreviousBlocks cf cs r1 l)
              = Some (Inr h, cs', r')"
        by simp
      from Suc.IH [OF this] show ?thesis .
    qed
  qed
qed

lemma bootstrap_invariant:
  assumes B: "0 < unat (BlocksToSave config)" "unat (BlocksToSave config) < 2 ^ 62"
    and boot: "fetchInitDataWithRetry cf (newChainTracker config tickerTime) r = Some (None, cs', r')"
  shows "window_invariant cs' \<and> tracker_range cs'"
proof -
  let ?cs = "newChainTracker config tickerTime"
  obtain res r1 where
    n: "fetchLatestBlockNum_retry cf initRetriesCount (fetchLatestBlockNum cf r) = (res, r1)"
    by (cases "fetchLatestBlockNum_retry cf initRetriesCount (fetchLatestBlockNum cf r)")
  from boot n obtain l h where
    "fetchAllPreviousBlocks_retry cf l initRetriesCount (fetchAllPreviousBlocks cf ?cs r1 l)
       = Some (Inr h, cs', r')"
    by (auto simp: fetchInitDataWithRetry_def split: sum.splits option.splits prod.splits)
  from retry_success [OF this] obtain rb where
    s: "fetchAllPreviousBlocks cf ?cs rb l = Some (Inr h, cs', r')"
    by blast
  have range: "tracker_range ?cs"
    using B by (simp add: tracker_range_def newChainTracker_def)
  have fresh: "window_invariant ?cs \<or> blocksQueue ?cs = [] \<and> latestBlockNum ?cs = 0"
    by (simp add: newChainTracker_def)
  from repair_preserves_invariant [OF range fresh s] show ?thesis .
qed

lemma repairs_invariant:
  "tracker_range cs \<Longrightarrow> window_invariant cs \<Longrightarrow> repairs cf cs r ls = Some (cs', r')
   \<Longrightarrow> window_invariant cs' \<and> tracker_range cs'"
proof (induction ls arbitrary: cs r)
  case Nil
  then show ?case by simp
next
  case (Cons l ls)
  from Cons.prems(3) obtain res cs1 r1 where
    1: "fetchAllPreviousBlocks cf cs r l = Some (res, cs1, r1)" and
    2: "repairs cf cs1 r1 ls = Some (cs', r')"
    by (auto split: option.splits)
  have "window_invariant cs1 \<and> tracker_range cs1"
  proof (cases res)
    case (Inl err)
    with fetchAllPreviousBlocks_error [of cf cs r l err cs1 r1] 1 Cons.prems(1,2)
    show ?thesis by simp
  next
    case (Inr h)
    with repair_preserves_invariant [of cs cf r l h cs1 r1] 1 Cons.prems(1,2)
    show ?thesis by simp
  qed
  with Cons.IH [OF _ _ 2] show ?case by simp
qed

lemma cycle_tracker:
  assumes "fetchAllPreviousBlocksIfNecessary cf cs r = Some (err, calls, cs', r')"
  shows "cs' = cs \<or> (\<exists>l r2 h. fetchAllPreviousBlocks cf cs r2 l = Some (Inr h, cs', r'))"
proof -
  obtain a r1 where 1: "fetchLatestBlockNum cf r = (a, r1)"
    by (cases "fetchLatestBlockNum cf r")
  show ?thesis
  proof (cases a)
    case (Inl e)
    with assms 1 show ?thesis by (simp add: fetchAllPreviousBlocksIfNecessary_def)
  next
    case (Inr l)
    obtain b r2 where 2: "forkChanged cf cs r1 l = (b, r2)"
      by (cases "forkChanged cf cs r1 l")
    show ?thesis
    proof (cases b)
      case (Inl e)
      with assms 1 Inr 2 show ?thesis by (simp add: fetchAllPreviousBlocksIfNecessary_def Let_def)
    next
      case forked: (Inr forked)
      show ?thesis
      proof (cases "gotNewBlock cs l \<or> forked")
        case False
        with assms 1 Inr 2 forked show ?thesis
          by (simp add: fetchAllPreviousBlocksIfNecessary_def Let_def)
      next
        case True
        show ?thesis
        proof (cases "fetchAllPreviousBlocks cf cs r2 l")
          case None
          with assms 1 Inr 2 forked True show ?thesis
            by (simp add: fetchAllPreviousBlocksIfNecessary_def Let_def)
        next
          case (Some x)
          obtain res cs1 r3 where x: "x = (res, cs1, r3)" by (cases x)
          show ?thesis
          proof (cases res)
            case (Inl e)
            have "fetchAllPreviousBlocks cf cs r2 l = Some (Inl e, cs1, r3)"
              using Some x Inl by simp
            from fetchAllPreviousBlocks_error [OF this] have "cs1 = cs" by simp
            with assms 1 \<open>a = Inr l\<close> 2 forked True Some x Inl show ?thesis
              by (simp add: fetchAllPreviousBlocksIfNecessary_def Let_def)
          next
            case h: (Inr h)
            have f: "fetchAllPreviousBlocks cf cs r2 l = Some (Inr h, cs1, r3)"
              using Some x h by simp
            from assms 1 \<open>a = Inr l\<close> 2 forked True f have "cs' = cs1" "r' = r3"
              by (auto simp add: fetchAllPreviousBlocksIfNecessary_def Let_def
                    split: option.splits if_splits)
            with f show ?thesis by blast
          qed
        qed
      qed
    qed
  qed
qed

section \<open>A repair returns\<close>

lemma nonneg_of_unat_small: "unat (b :: int64) < 2 ^ 62 \<Longrightarrow> \<not> b <s 0"
proof -
  assume a: "unat b < 2 ^ 62"
  have "int (unat b) < 2 ^ 62"
    using a by (metis of_nat_less_iff of_nat_numeral of_nat_power)
  then have u: "uint b < 2 ^ 62" by simp
  have "sint b = signed_take_bit 63 (uint b)" using sint_uint [of b] by simp
  also have "\<dots> = uint b"
  proof (rule signed_take_bit_int_eq_self)
    have "0 \<le> uint b" by simp
    then show "- (2 ^ 63) \<le> uint b" by (rule order_trans [rotated]) simp
    show "uint b < 2 ^ 63" using u by simp
  qed
  finally show ?thesis by (simp add: word_sless_alt)
qed

lemma readHashes_loop_returns:
  assumes nn: "\<not> blocksToSave cs <s 0" and lenq: "length (blocksQueue cs) < 2 ^ 63"
  shows "k \<le> unat (blocksToSave cs) \<Longrightarrow> length newq = unat (blocksToSave cs)
    \<Longrightarrow> readHashes_loop cf cs latest rd r (of_nat k) s0 e0 n0 newq \<noteq> None"
proof (induction d \<equiv> "unat (blocksToSave cs) - k" arbitrary: k r s0 e0 n0 newq)
  case 0
  then have kB: "k = unat (blocksToSave cs)" by simp
  have "\<not> (of_nat k :: int64) <s blocksToSave cs" by (simp add: kB)
  from readHashes_loop_exit [OF this, of cf latest rd r s0 e0 n0 newq] show ?case by simp
next
  case (Suc d)
  let ?B = "unat (blocksToSave cs)"
  let ?idx = "of_nat k :: int64"
  from Suc.hyps(2) have k: "k < ?B" by simp
  note ix = scan_index_facts [OF nn k]
  obtain res r1 where f: "fetchBlockHashByNum cf cs r (latest - ?idx) = (res, r1)"
    by (cases "fetchBlockHashByNum cf cs r (latest - ?idx)")
  show ?case
  proof (cases res)
    case (Inl err)
    from readHashes_loop_error [OF ix(1) f [unfolded Inl], of rd s0 e0 n0 newq]
    show ?thesis by simp
  next
    case (Inr h)
    note f' = f [unfolded Inr]
    from hashesOverlapIndexes_no_panic [OF lenq, of rd ?idx "latest - ?idx" h]
    obtain fo s1 e1 n1 where
      ov: "hashesOverlapIndexes cs rd ?idx (latest - ?idx) h = Some (fo, s1, e1, n1)"
      by (cases "hashesOverlapIndexes cs rd ?idx (latest - ?idx) h") auto
    show ?thesis
    proof (cases fo)
      case True
      have "hashesOverlapIndexes cs rd ?idx (latest - ?idx) h = Some (True, s1, e1, n1)"
        using ov True by simp
      from readHashes_loop_found [OF ix(1) f' this, of s0 e0 n0 newq] show ?thesis by simp
    next
      case False
      have ov': "hashesOverlapIndexes cs rd ?idx (latest - ?idx) h = Some (False, s1, e1, n1)"
        using ov False by simp
      let ?rec = "\<lparr>Block = latest - ?idx, Hash = h\<rparr>"
      let ?newq1 = "newq[?B - 1 - k := ?rec]"
      have st: "store_slice newq (blocksToSave cs - 1 - ?idx) ?rec = Some ?newq1"
        unfolding store_slice_def ix(4) using ix(5) k Suc.prems(2)
        by simp
      have next_idx: "?idx + 1 = of_nat (Suc k)" by simp
      have d: "d = ?B - Suc k" using Suc.hyps(2) by simp
      have sk: "Suc k \<le> ?B" using k by simp
      have len1: "length ?newq1 = ?B" using Suc.prems(2) by simp
      from Suc.hyps(1) [OF d sk len1, of r1 s1 e1 n1]
      show ?thesis
        unfolding readHashes_loop_step [OF ix(1) f' ov' st, of s0 e0 n0] next_idx .
    qed
  qed
qed

lemma replace_after_scan:
  assumes mk: "make_slice (blocksToSave cs) = Some newq0"
    and ok: "\<not> latest <s GetLatestBlockNum cs"
    and rd: "sint latest - sint (GetLatestBlockNum cs) < 2 ^ 63"
    and len: "length (blocksQueue cs) \<le> unat (blocksToSave cs)"
    and bts: "unat (blocksToSave cs) < 2 ^ 62"
    and scan: "readHashes_loop cf cs latest (latest - GetLatestBlockNum cs) r 0 0 0 0 newq0
                 = Some (Inr (found, i, s, e, n, newq), r')"
  shows "\<exists>c ln h cs1. replaceBlocksQueue cs latest n s e newq (blocksToSave cs)
                         = Some ((c, ln, h), cs1)"
proof -
  let ?rd = "latest - GetLatestBlockNum cs"
  let ?B = "unat (blocksToSave cs)"
  note RD = read_diff_nonneg [OF ok rd]
  from scan_result [OF mk scan] obtain m where
    m: "i = of_nat m" "m \<le> ?B" "length newq = ?B"
       "found \<longrightarrow> m < ?B \<and> (\<exists>h. hashesOverlapIndexes cs ?rd (of_nat m) (latest - of_nat m) h
                                   = Some (True, s, e, n))"
       "\<not> found \<longrightarrow> m = ?B \<and> s = 0 \<and> e = 0 \<and> n = 0"
    by blast
  have len62: "length (blocksQueue cs) < 2 ^ 62" using len bts by simp
  have pre: "0 <s n \<longrightarrow> 0 \<le>s s \<and> s \<le>s e \<and> nat (sint e) \<le> length (blocksQueue cs)
                       \<and> nat (sint n) \<le> length newq"
  proof (cases found)
    case False
    with m(5) show ?thesis by simp
  next
    case True
    with m(4) obtain h0 where mB: "m < ?B" and
      acc: "hashesOverlapIndexes cs ?rd (of_nat m) (latest - of_nat m) h0 = Some (True, s, e, n)"
      by blast
    have m62: "m < 2 ^ 62" using mB bts by simp
    note I = accepted_anchor_indexes [OF acc RD(2) len62 m62]
    have e_le: "nat (sint e) \<le> length (blocksQueue cs)"
      using I(2,4) by linarith
    have n_le: "nat (sint n) \<le> length newq"
      using I(3) m(3) len by linarith
    have "0 \<le>s s" "s \<le>s e"
      using I RD by (simp_all add: word_sle_eq)
    with e_le n_le show ?thesis by simp
  qed
  from replaceBlocksQueue_Some [OF pre] show ?thesis .
qed

lemma repair_returns:
  assumes range: "tracker_range cs"
    and inv: "window_invariant cs \<or> blocksQueue cs = [] \<and> latestBlockNum cs = 0"
  shows "\<exists>res cs' r'. fetchAllPreviousBlocks cf cs r latest = Some (res, cs', r')"
proof -
  let ?B = "unat (blocksToSave cs)"
  let ?cur = "GetLatestBlockNum cs"
  have B62: "?B < 2 ^ 62" and cur0: "0 \<le> sint ?cur"
    using range by (simp_all add: tracker_range_def word_sle_eq GetLatestBlockNum_def)
  have nn: "\<not> blocksToSave cs <s 0" by (rule nonneg_of_unat_small [OF B62])
  then obtain newq0 where mk: "make_slice (blocksToSave cs) = Some newq0"
    by (simp add: make_slice_def)
  note M = make_slice_Some [OF mk]
  have len: "length (blocksQueue cs) \<le> ?B"
    using inv by (auto simp: window_invariant_def)
  have lenq: "length (blocksQueue cs) < 2 ^ 63"
    using len B62 by simp
  show ?thesis
  proof (cases "latest <s ?cur")
    case True
    from fetchAllPreviousBlocks_rejected [OF mk True, of cf r] show ?thesis by blast
  next
    case False
    have "sint latest < 2 ^ 63" using sint_lt [of latest] by simp
    then have rdb: "sint latest - sint ?cur < 2 ^ 63" using cur0 by linarith
    from readHashes_loop_returns [OF nn lenq _ conjunct2 [OF M], of 0 cf latest "latest - ?cur" r 0 0 0]
    obtain out r1 where
      scan: "readHashes_loop cf cs latest (latest - ?cur) r 0 0 0 0 newq0 = Some (out, r1)"
      by auto
    show ?thesis
    proof (cases out)
      case (Inl err)
      from fetchAllPreviousBlocks_scan_error [OF mk False scan [unfolded Inl]]
      show ?thesis by blast
    next
      case (Inr t)
      obtain found i s e n newq where t: "t = (found, i, s, e, n, newq)" by (cases t)
      note scan' = scan [unfolded Inr t]
      from replace_after_scan [OF mk False rdb len B62 scan']
      obtain c ln h cs1 where
        "replaceBlocksQueue cs latest n s e newq (blocksToSave cs) = Some ((c, ln, h), cs1)"
        by blast
      from repair_of_scan [OF mk False scan' this] show ?thesis by blast
    qed
  qed
qed

section \<open>The window invariant after the bootstrap and after repairs\<close>

text \<open>
  Claim C3. When the bootstrap returns without error, and after every successful
  repair of a tracker that satisfies the invariant, the window has exactly
  \<open>blocksToSave\<close> records, its block numbers go up by exactly one from the oldest record
  to the newest, and the latest block number is the block number of the newest record.
  The invariant is therefore kept by every sequence of repairs, failed ones included, and
  by every poll cycle; and a repair of a tracker that satisfies it always returns, with a
  hash or with an error. The statement is for a window size that is positive and below
  \<open>2 ^ 62\<close> and a latest block number that is not negative.
\<close>

theorem window_invariant_kept:
  "(0 < unat (BlocksToSave config) \<and> unat (BlocksToSave config) < 2 ^ 62
      \<and> fetchInitDataWithRetry cf (newChainTracker config tickerTime) r = Some (None, cs0, r0)
    \<longrightarrow> window_invariant cs0 \<and> tracker_range cs0)
   \<and> (tracker_range cs \<and> window_invariant cs
      \<and> fetchAllPreviousBlocks cf cs r latest = Some (Inr h, cs1, r1)
    \<longrightarrow> length (blocksQueue cs1) = unat (blocksToSave cs1)
        \<and> contiguous (blocksQueue cs1)
        \<and> GetLatestBlockNum cs1 = Block (getLatestBlockUnsafe cs1)
        \<and> window_invariant cs1 \<and> tracker_range cs1)
   \<and> (tracker_range cs \<and> window_invariant cs \<and> repairs cf cs r ls = Some (cs2, r2)
    \<longrightarrow> window_invariant cs2 \<and> tracker_range cs2)
   \<and> (tracker_range cs \<and> window_invariant cs
      \<and> fetchAllPreviousBlocksIfNecessary cf cs r = Some (err, calls, cs3, r3)
    \<longrightarrow> window_invariant cs3 \<and> tracker_range cs3)
   \<and> (tracker_range cs \<and> window_invariant cs
    \<longrightarrow> fetchAllPreviousBlocks cf cs r latest \<noteq> None)"
proof (intro conjI impI)
  assume "0 < unat (BlocksToSave config) \<and> unat (BlocksToSave config) < 2 ^ 62
      \<and> fetchInitDataWithRetry cf (newChainTracker config tickerTime) r = Some (None, cs0, r0)"
  then have "window_invariant cs0 \<and> tracker_range cs0"
    using bootstrap_invariant [of config cf tickerTime r cs0 r0] by blast
  then show "window_invariant cs0" and "tracker_range cs0" by simp_all
next
  assume "tracker_range cs \<and> window_invariant cs
      \<and> fetchAllPreviousBlocks cf cs r latest = Some (Inr h, cs1, r1)"
  then have i: "window_invariant cs1 \<and> tracker_range cs1"
    using repair_preserves_invariant [of cs cf r latest h cs1 r1] by blast
  then show "window_invariant cs1" and "tracker_range cs1" by simp_all
  from i show "length (blocksQueue cs1) = unat (blocksToSave cs1)"
    and "contiguous (blocksQueue cs1)"
    and "GetLatestBlockNum cs1 = Block (getLatestBlockUnsafe cs1)"
    by (simp_all add: window_invariant_def)
next
  assume "tracker_range cs \<and> window_invariant cs \<and> repairs cf cs r ls = Some (cs2, r2)"
  then have "window_invariant cs2 \<and> tracker_range cs2"
    using repairs_invariant [of cs cf r ls cs2 r2] by blast
  then show "window_invariant cs2" and "tracker_range cs2" by simp_all
next
  assume a: "tracker_range cs \<and> window_invariant cs
      \<and> fetchAllPreviousBlocksIfNecessary cf cs r = Some (err, calls, cs3, r3)"
  then have "cs3 = cs \<or> (\<exists>l r2 h. fetchAllPreviousBlocks cf cs r2 l = Some (Inr h, cs3, r3))"
    using cycle_tracker [of cf cs r err calls cs3 r3] by blast
  then have "window_invariant cs3 \<and> tracker_range cs3"
  proof
    assume "cs3 = cs"
    with a show ?thesis by simp
  next
    assume "\<exists>l r2 h. fetchAllPreviousBlocks cf cs r2 l = Some (Inr h, cs3, r3)"
    then obtain l r2 h where "fetchAllPreviousBlocks cf cs r2 l = Some (Inr h, cs3, r3)"
      by blast
    with a show ?thesis
      using repair_preserves_invariant [of cs cf r2 l h cs3 r3] by blast
  qed
  then show "window_invariant cs3" and "tracker_range cs3" by simp_all
next
  assume "tracker_range cs \<and> window_invariant cs"
  then show "fetchAllPreviousBlocks cf cs r latest \<noteq> None"
    using repair_returns [of cs cf r latest] by auto
qed

theorem window_invariant_kept_witness:
  "fetchInitDataWithRetry (static_fetcher 100 spec_hashes) (newChainTracker config_4 1000000000) ()
     = Some (None, tracker_100, ())
   \<and> window_invariant tracker_100 \<and> tracker_range tracker_100
   \<and> fetchAllPreviousBlocks (static_fetcher 101 spec_hashes) tracker_100 () 101
     = Some (Inr ''h101'', tracker_101, ())
   \<and> length (blocksQueue tracker_101) = unat (blocksToSave tracker_101)
   \<and> contiguous (blocksQueue tracker_101)
   \<and> GetLatestBlockNum tracker_101 = Block (getLatestBlockUnsafe tracker_101)
   \<and> repairs (static_fetcher 104 spec_hashes) tracker_100 () [101, 99, 104] = Some (tracker_104, ())
   \<and> window_invariant tracker_104
   \<and> fetchAllPreviousBlocksIfNecessary (static_fetcher 104 spec_hashes) tracker_101 ()
     = Some (None, [NewLatestCall 102 ''h104'', NewLatestCall 103 ''h104'', NewLatestCall 104 ''h104''],
             tracker_104, ())"
proof -
  have c: "0 < unat (BlocksToSave config_4) \<and> unat (BlocksToSave config_4) < 2 ^ 62"
    by (simp add: config_4_def)
  have b: "fetchInitDataWithRetry (static_fetcher 100 spec_hashes)
             (newChainTracker config_4 1000000000) () = Some (None, tracker_100, ())"
    by code_simp
  have i100: "window_invariant tracker_100 \<and> tracker_range tracker_100"
    using window_invariant_kept [of config_4 "static_fetcher 100 spec_hashes" 1000000000 "()"
            tracker_100 "()"] b c
    by simp
  have f: "fetchAllPreviousBlocks (static_fetcher 101 spec_hashes) tracker_100 () 101
     = Some (Inr ''h101'', tracker_101, ())"
    by code_simp
  have g: "repairs (static_fetcher 104 spec_hashes) tracker_100 () [101, 99, 104]
             = Some (tracker_104, ())"
    by code_simp
  have i101: "window_invariant tracker_101 \<and> tracker_range tracker_101"
    using window_invariant_kept [of _ "static_fetcher 101 spec_hashes" _ "()" _ _ tracker_100 101
            "''h101''" tracker_101 "()"] i100 f
    by simp
  have k: "fetchAllPreviousBlocksIfNecessary (static_fetcher 104 spec_hashes) tracker_101 ()
     = Some (None, [NewLatestCall 102 ''h104'', NewLatestCall 103 ''h104'', NewLatestCall 104 ''h104''],
             tracker_104, ())"
    by code_simp
  from window_invariant_kept [of _ "static_fetcher 101 spec_hashes" _ "()" _ _ tracker_100 101
            "''h101''" tracker_101 "()"]
       window_invariant_kept [of _ "static_fetcher 104 spec_hashes" _ "()" _ _ tracker_100 _ _ _ _
            "[101, 99, 104]" tracker_104 "()"]
       window_invariant_kept [of _ "static_fetcher 104 spec_hashes" _ "()" _ _ tracker_101 _ _ _ _
            _ _ _ None
            "[NewLatestCall 102 ''h104'', NewLatestCall 103 ''h104'', NewLatestCall 104 ''h104'']"
            tracker_104 "()"]
       i100 i101 b f g k
  show ?thesis by simp
qed

section \<open>The callbacks of a poll cycle\<close>

lemma newLatestCallback_loop_returns:
  assumes "sint newLatestBlock < 2 ^ 63 - 1"
  shows "newLatestCallback_loop i newLatestBlock latestHash calls
           = Some (calls @ map (\<lambda>b. NewLatestCall (word_of_int b) latestHash)
                             [sint i .. sint newLatestBlock])"
proof (induction "nat (sint newLatestBlock - sint i + 1)" arbitrary: i calls)
  case 0
  then have "\<not> i \<le>s newLatestBlock" by (simp add: word_sle_eq)
  moreover from 0 have "[sint i .. sint newLatestBlock] = []" by simp
  ultimately show ?case
    by (subst newLatestCallback_loop.simps) simp
next
  case (Suc d)
  then have le: "i \<le>s newLatestBlock" by (simp add: word_sle_eq)
  then have "sint i \<le> sint newLatestBlock" by (simp add: word_sle_eq)
  have lo: "- (2 ^ 63) \<le> sint i" using sint_ge [of i] by simp
  have s1: "sint (i + 1) = sint i + 1"
    using sint_add_range [of i 1] \<open>sint i \<le> sint newLatestBlock\<close> assms lo by simp
  have d: "d = nat (sint newLatestBlock - sint (i + 1) + 1)"
    using Suc.hyps(2) s1 by simp
  have up: "[sint i .. sint newLatestBlock] = sint i # [sint i + 1 .. sint newLatestBlock]"
    using \<open>sint i \<le> sint newLatestBlock\<close> by (simp add: upto_rec1)
  have "newLatestCallback_loop i newLatestBlock latestHash calls
          = newLatestCallback_loop (i + 1) newLatestBlock latestHash
              (calls @ [NewLatestCall i latestHash])"
    using le by (subst newLatestCallback_loop.simps) simp
  also have "\<dots> = Some ((calls @ [NewLatestCall i latestHash])
                       @ map (\<lambda>b. NewLatestCall (word_of_int b) latestHash)
                             [sint (i + 1) .. sint newLatestBlock])"
    by (rule Suc.hyps(1) [OF d])
  finally show ?case by (simp add: up s1)
qed


lemma new_latest_calls:
  assumes top: "sint newLatestBlock < 2 ^ 63 - 1"
  shows "(if gotNewBlock cs newLatestBlock \<and> cb
          then newLatestCallback_loop (GetLatestBlockNum cs + 1) newLatestBlock h []
          else Some [])
         = Some (if cb then map (\<lambda>b. NewLatestCall (word_of_int b) h)
                              [sint (GetLatestBlockNum cs) + 1 .. sint newLatestBlock]
                 else [])"
proof (cases "gotNewBlock cs newLatestBlock")
  case True
  then have lt: "GetLatestBlockNum cs <s newLatestBlock" by (simp add: gotNewBlock_def)
  have "sint (GetLatestBlockNum cs + 1) = sint (GetLatestBlockNum cs) + 1"
    by (rule sint_succ [OF lt])
  with True newLatestCallback_loop_returns [OF top, of "GetLatestBlockNum cs + 1" h "[]"]
  show ?thesis by simp
next
  case False
  then have "sint newLatestBlock \<le> sint (GetLatestBlockNum cs)"
    by (simp add: gotNewBlock_def word_sless_alt)
  then have "[sint (GetLatestBlockNum cs) + 1 .. sint newLatestBlock] = []" by simp
  with False show ?thesis by simp
qed

text \<open>
  The callback loop \<open>for i := prev_latest + 1; i <= newLatestBlock; i++\<close> counts in
  \<open>int64\<close>. It can only return when \<open>newLatestBlock\<close> is below the largest \<open>int64\<close>: at
  the largest one the test \<open>i <= newLatestBlock\<close> holds for every \<open>i\<close>, the counter wraps
  and the loop goes on.
\<close>

lemma newLatestCallback_loop_Some_below_max:
  assumes "newLatestCallback_loop i newLatestBlock latestHash calls = Some out"
  shows "sint newLatestBlock < 2 ^ 63 - 1"
proof (rule newLatestCallback_loop.raw_induct
         [where P = "\<lambda>i n h c out. sint (n :: int64) < 2 ^ 63 - 1", OF _ assms])
  fix loop :: "int64 \<Rightarrow> int64 \<Rightarrow> string \<Rightarrow> callback list \<Rightarrow> callback list option"
  fix i n :: int64 and h :: string and c out :: "callback list"
  assume IH: "\<And>i n h c out. loop i n h c = Some out \<Longrightarrow> sint n < 2 ^ 63 - 1"
  assume step: "(if i \<le>s n then loop (i + 1) n h (c @ [NewLatestCall i h]) else Some c) = Some out"
  show "sint n < 2 ^ 63 - 1"
  proof (cases "i \<le>s n")
    case True
    with step have "loop (i + 1) n h (c @ [NewLatestCall i h]) = Some out"
      by simp
    then show ?thesis by (rule IH)
  next
    case False
    then have "sint n < sint i" by (simp add: word_sle_eq)
    moreover have "sint i < 2 ^ 63" using sint_lt [of i] by simp
    ultimately show ?thesis by simp
  qed
qed

lemma newLatestCallback_loop_at_max:
  "newLatestCallback_loop i 9223372036854775807 latestHash calls = None"
proof (cases "newLatestCallback_loop i 9223372036854775807 latestHash calls")
  case (Some out)
  from newLatestCallback_loop_Some_below_max [OF Some] show ?thesis by simp
qed simp

text \<open>
  Claim C4 says that in every poll cycle whose repair succeeds the new-latest callback is
  called exactly once for each block of \<open>[prev_latest + 1 .. new_latest]\<close> and the fork
  callback at most once after them. A remote that reports the largest \<open>int64\<close> as its
  latest block number is a cycle where that fails: from \<open>tracker_100\<close> a new block is
  seen, the repair succeeds and writes the window \<open>tracker_max\<close>, and then the callback
  loop does not return, so the cycle has no finite list of callbacks and never reaches
  the fork callback.
\<close>

theorem callback_loop_at_max_int64_counterexample:
  "fetchLatestBlockNum (static_fetcher 9223372036854775807 spec_hashes) ()
     = (Inr 9223372036854775807, ())
   \<and> gotNewBlock tracker_100 9223372036854775807
   \<and> fetchAllPreviousBlocks (static_fetcher 9223372036854775807 spec_hashes) tracker_100 ()
       9223372036854775807
     = Some (Inr ''h'', tracker_max, ())
   \<and> fetchAllPreviousBlocksIfNecessary (static_fetcher 9223372036854775807 spec_hashes)
       tracker_100 ()
     = None"
proof (intro conjI)
  let ?far = "static_fetcher 9223372036854775807 spec_hashes"
  show n: "fetchLatestBlockNum ?far () = (Inr 9223372036854775807, ())" by code_simp
  show got: "gotNewBlock tracker_100 9223372036854775807" by code_simp
  show rep: "fetchAllPreviousBlocks ?far tracker_100 () 9223372036854775807
               = Some (Inr ''h'', tracker_max, ())"
    by code_simp
  have f: "forkChanged ?far tracker_100 () 9223372036854775807 = (Inr False, ())" by code_simp
  have cb: "newLatestCallback tracker_max" by (simp add: tracker_max_def)
  show "fetchAllPreviousBlocksIfNecessary ?far tracker_100 () = None"
    by (simp add: fetchAllPreviousBlocksIfNecessary_def Let_def n f got rep cb
          newLatestCallback_loop_at_max)
qed

text \<open>
  Claim C4, as amended. In a poll cycle whose repair succeeds and whose new latest block
  number is below the largest \<open>int64\<close>, the new-latest callback, when it is
  configured, is called once for each block of \<open>[prev_latest + 1 .. newLatestBlock]\<close>, in
  ascending order, each time with the hash of the newest record of the repaired window
  (the list is empty when no new block arrived), so the number of these calls is
  \<open>max 0 (newLatestBlock - prev_latest)\<close>; when the cycle had found a fork, the fork
  callback, when it is configured, is called once with \<open>newLatestBlock\<close>, after all of
  them. A cycle that finds neither a new block nor a fork calls nothing.
\<close>

theorem callbacks_of_a_poll_cycle:
  assumes n: "fetchLatestBlockNum cf r = (Inr newLatestBlock, r1)"
    and f: "forkChanged cf cs r1 newLatestBlock = (Inr forked, r2)"
    and top: "sint newLatestBlock < 2 ^ 63 - 1"
  shows "(gotNewBlock cs newLatestBlock \<or> forked
            \<longrightarrow> fetchAllPreviousBlocks cf cs r2 newLatestBlock = Some (Inr latestHash, cs', r3)
            \<longrightarrow> fetchAllPreviousBlocksIfNecessary cf cs r
                  = Some (None,
                          (if newLatestCallback cs
                           then map (\<lambda>b. NewLatestCall (word_of_int b) latestHash)
                                  [sint (GetLatestBlockNum cs) + 1 .. sint newLatestBlock]
                           else [])
                          @ (if forked \<and> forkCallback cs then [ForkCall newLatestBlock] else []),
                          cs', r3)
                \<and> latestHash = Hash (getLatestBlockUnsafe cs'))
       \<and> (\<not> (gotNewBlock cs newLatestBlock \<or> forked)
            \<longrightarrow> fetchAllPreviousBlocksIfNecessary cf cs r = Some (None, [], cs, r2))
       \<and> length [sint (GetLatestBlockNum cs) + 1 .. sint newLatestBlock]
            = nat (max 0 (sint newLatestBlock - sint (GetLatestBlockNum cs)))
       \<and> length (if forked \<and> forkCallback cs then [ForkCall newLatestBlock] else []) \<le> 1"
proof (intro conjI impI)
  assume flag: "gotNewBlock cs newLatestBlock \<or> forked"
    and rep: "fetchAllPreviousBlocks cf cs r2 newLatestBlock = Some (Inr latestHash, cs', r3)"
  note S = fetchAllPreviousBlocks_success [OF rep]
  from S show "latestHash = Hash (getLatestBlockUnsafe cs')" by simp
  have cb: "newLatestCallback cs' = newLatestCallback cs" "forkCallback cs' = forkCallback cs"
    using S by simp_all
  note calls = new_latest_calls [OF top, of cs "newLatestCallback cs" latestHash]
  show "fetchAllPreviousBlocksIfNecessary cf cs r
                  = Some (None,
                          (if newLatestCallback cs
                           then map (\<lambda>b. NewLatestCall (word_of_int b) latestHash)
                                  [sint (GetLatestBlockNum cs) + 1 .. sint newLatestBlock]
                           else [])
                          @ (if forked \<and> forkCallback cs then [ForkCall newLatestBlock] else []),
                          cs', r3)"
    using flag by (simp add: fetchAllPreviousBlocksIfNecessary_def Let_def n f rep cb calls)
next
  assume "\<not> (gotNewBlock cs newLatestBlock \<or> forked)"
  then show "fetchAllPreviousBlocksIfNecessary cf cs r = Some (None, [], cs, r2)"
    by (simp add: fetchAllPreviousBlocksIfNecessary_def Let_def n f)
next
  show "length [sint (GetLatestBlockNum cs) + 1 .. sint newLatestBlock]
            = nat (max 0 (sint newLatestBlock - sint (GetLatestBlockNum cs)))"
    by simp
  show "length (if forked \<and> forkCallback cs then [ForkCall newLatestBlock] else []) \<le> 1"
    by simp
qed


theorem callbacks_of_a_poll_cycle_witness:
  "fetchAllPreviousBlocksIfNecessary (static_fetcher 108 (\<lambda>b. ''x'')) tracker_104 ()
     = Some (None,
             [NewLatestCall 105 ''x'', NewLatestCall 106 ''x'', NewLatestCall 107 ''x'',
              NewLatestCall 108 ''x'', ForkCall 108],
             tracker_108, ())
   \<and> Hash (getLatestBlockUnsafe tracker_108) = ''x''
   \<and> fetchAllPreviousBlocksIfNecessary (static_fetcher 100 spec_hashes) tracker_100 ()
     = Some (None, [], tracker_100, ())"
proof -
  let ?reorg = "static_fetcher 108 (\<lambda>b. ''x'')"
  have n: "fetchLatestBlockNum ?reorg () = (Inr 108, ())" by code_simp
  have f: "forkChanged ?reorg tracker_104 () 108 = (Inr True, ())" by code_simp
  have top: "sint (108 :: int64) < 2 ^ 63 - 1" by simp
  have flag: "gotNewBlock tracker_104 108 \<or> True" by simp
  have rep: "fetchAllPreviousBlocks ?reorg tracker_104 () 108 = Some (Inr ''x'', tracker_108, ())"
    by code_simp
  have cur: "sint (GetLatestBlockNum tracker_104) = 104" "newLatestCallback tracker_104"
    "forkCallback tracker_104"
    by (simp_all add: GetLatestBlockNum_def tracker_104_def)
  let ?same = "static_fetcher 100 spec_hashes"
  have n0: "fetchLatestBlockNum ?same () = (Inr 100, ())" by code_simp
  have f0: "forkChanged ?same tracker_100 () 100 = (Inr False, ())" by code_simp
  have top0: "sint (100 :: int64) < 2 ^ 63 - 1" by simp
  have flag0: "\<not> (gotNewBlock tracker_100 100 \<or> False)" by code_simp
  note T = callbacks_of_a_poll_cycle [OF n f top, of "''x''" tracker_108 "()"]
  from T flag rep
  have t: "fetchAllPreviousBlocksIfNecessary ?reorg tracker_104 ()
             = Some (None,
                     (if newLatestCallback tracker_104
                      then map (\<lambda>b. NewLatestCall (word_of_int b) ''x'')
                             [sint (GetLatestBlockNum tracker_104) + 1 .. sint (108 :: int64)]
                      else [])
                     @ (if True \<and> forkCallback tracker_104 then [ForkCall 108] else []),
                     tracker_108, ())
           \<and> ''x'' = Hash (getLatestBlockUnsafe tracker_108)"
    by blast
  have a: "fetchAllPreviousBlocksIfNecessary ?reorg tracker_104 ()
     = Some (None,
             [NewLatestCall 105 ''x'', NewLatestCall 106 ''x'', NewLatestCall 107 ''x'',
              NewLatestCall 108 ''x'', ForkCall 108],
             tracker_108, ())"
    using t [THEN conjunct1] cur by simp
  have b: "Hash (getLatestBlockUnsafe tracker_108) = ''x''"
    using t [THEN conjunct2] by (rule sym)
  have c: "fetchAllPreviousBlocksIfNecessary ?same tracker_100 () = Some (None, [], tracker_100, ())"
    using callbacks_of_a_poll_cycle [OF n0 f0 top0] flag0 by blast
  from a b c show ?thesis by (intro conjI)
qed

section \<open>What the fork detector answers\<close>

text \<open>
  Claim C5. \<open>gotNewBlock\<close> holds exactly when the fetched latest block number is greater
  than the latest block number of the tracker. \<open>forkChanged\<close> fetches the hash of the
  block number of the newest saved record and answers whether it differs from the saved
  hash: when the fetched latest block number differs from the tracker's this is what the
  code asks for, and when it is equal the code asks for the hash of the fetched latest
  block number, which is the number of the newest saved record by the invariant of the
  window. Both functions only read the tracker (they return no tracker), and both flags
  hold in the same cycle for a remote that has advanced to block 101 on another branch.
\<close>

theorem fork_detector_flags:
  "gotNewBlock cs newLatestBlock = (sint (GetLatestBlockNum cs) < sint newLatestBlock)
   \<and> (newLatestBlock \<noteq> GetLatestBlockNum cs
        \<or> GetLatestBlockNum cs = Block (getLatestBlockUnsafe cs)
      \<longrightarrow> forkChanged cf cs r newLatestBlock
          = (case fetchBlockHashByNum cf cs r (Block (getLatestBlockUnsafe cs)) of
               (Inl err, r') \<Rightarrow> (Inl err, r')
             | (Inr hash, r') \<Rightarrow> (Inr (Hash (getLatestBlockUnsafe cs) \<noteq> hash), r')))
   \<and> ((newLatestBlock \<noteq> GetLatestBlockNum cs
         \<or> GetLatestBlockNum cs = Block (getLatestBlockUnsafe cs))
        \<and> fetchBlockHashByNum cf cs r (Block (getLatestBlockUnsafe cs)) = (Inr hash, r')
      \<longrightarrow> forkChanged cf cs r newLatestBlock
          = (Inr (hash \<noteq> Hash (getLatestBlockUnsafe cs)), r'))
   \<and> (gotNewBlock tracker_100 101
        \<and> forkChanged (static_fetcher 101 (\<lambda>b. ''x'')) tracker_100 () 101 = (Inr True, ()))"
proof (intro conjI impI)
  show "gotNewBlock cs newLatestBlock = (sint (GetLatestBlockNum cs) < sint newLatestBlock)"
    by (simp add: gotNewBlock_def word_sless_alt)
next
  assume "newLatestBlock \<noteq> GetLatestBlockNum cs
        \<or> GetLatestBlockNum cs = Block (getLatestBlockUnsafe cs)"
  then show "forkChanged cf cs r newLatestBlock
          = (case fetchBlockHashByNum cf cs r (Block (getLatestBlockUnsafe cs)) of
               (Inl err, r') \<Rightarrow> (Inl err, r')
             | (Inr hash, r') \<Rightarrow> (Inr (Hash (getLatestBlockUnsafe cs) \<noteq> hash), r'))"
    by (auto simp: forkChanged_def Let_def split: prod.splits sum.splits)
next
  assume "(newLatestBlock \<noteq> GetLatestBlockNum cs
         \<or> GetLatestBlockNum cs = Block (getLatestBlockUnsafe cs))
        \<and> fetchBlockHashByNum cf cs r (Block (getLatestBlockUnsafe cs)) = (Inr hash, r')"
  then show "forkChanged cf cs r newLatestBlock
          = (Inr (hash \<noteq> Hash (getLatestBlockUnsafe cs)), r')"
    by (auto simp: forkChanged_def Let_def split: prod.splits sum.splits)
next
  show "gotNewBlock tracker_100 101" by code_simp
  show "forkChanged (static_fetcher 101 (\<lambda>b. ''x'')) tracker_100 () 101 = (Inr True, ())"
    by code_simp
qed

theorem fork_detector_flags_witness:
  "gotNewBlock tracker_100 101
   \<and> forkChanged (static_fetcher 101 spec_hashes) tracker_100 () 101 = (Inr False, ())
   \<and> forkChanged (static_fetcher 100 (spec_hashes (100 := ''fork''))) tracker_100 () 100
       = (Inr True, ())"
proof -
  have a: "(101 :: int64) \<noteq> GetLatestBlockNum tracker_100
           \<or> GetLatestBlockNum tracker_100 = Block (getLatestBlockUnsafe tracker_100)"
    by code_simp
  have b: "fetchBlockHashByNum (static_fetcher 101 spec_hashes) tracker_100 ()
             (Block (getLatestBlockUnsafe tracker_100)) = (Inr ''h100'', ())"
    by code_simp
  have c: "(100 :: int64) \<noteq> GetLatestBlockNum tracker_100
           \<or> GetLatestBlockNum tracker_100 = Block (getLatestBlockUnsafe tracker_100)"
    by code_simp
  have d: "fetchBlockHashByNum (static_fetcher 100 (spec_hashes (100 := ''fork''))) tracker_100 ()
             (Block (getLatestBlockUnsafe tracker_100)) = (Inr ''fork'', ())"
    by (simp add: fetchBlockHashByNum_def static_fetcher_def tracker_100_def
          getLatestBlockUnsafe_def GetLatestBlockNum_def word_sless_alt)
  have e: "Hash (getLatestBlockUnsafe tracker_100) = ''h100''"
    by (simp add: getLatestBlockUnsafe_def tracker_100_def)
  from fork_detector_flags [of tracker_100 101 "static_fetcher 101 spec_hashes" "()" "''h100''" "()"]
       fork_detector_flags [of tracker_100 100 "static_fetcher 100 (spec_hashes (100 := ''fork''))"
          "()" "''fork''" "()"]
       a b c d e
  show ?thesis by simp
qed

section \<open>A poll cycle on an unchanged remote\<close>

text \<open>
  Claim C7. When the remote reports the latest block number the tracker already has,
  and the hash it gives for that block is the hash of the newest saved record, the poll
  cycle finds neither a new block nor a fork, starts no repair (the remote is left as
  the two fetches of the detection leave it), returns no error, leaves the tracker as
  it was and calls no callback.
\<close>

theorem unchanged_remote_no_repair:
  assumes "fetchLatestBlockNum cf r = (Inr newLatestBlock, r1)"
    and "newLatestBlock = GetLatestBlockNum cs"
    and "fetchBlockHashByNum cf cs r1 newLatestBlock = (Inr hash, r2)"
    and "hash = Hash (getLatestBlockUnsafe cs)"
  shows "gotNewBlock cs newLatestBlock = False
         \<and> forkChanged cf cs r1 newLatestBlock = (Inr False, r2)
         \<and> fetchAllPreviousBlocksIfNecessary cf cs r = Some (None, [], cs, r2)
         \<and> pollTick cf tickerTime (cs, r, 0) = Some ([], cs, r2, 0)"
proof -
  have g: "gotNewBlock cs newLatestBlock = False"
    using assms(2) by (simp add: gotNewBlock_def word_sless_alt)
  have f: "forkChanged cf cs r1 newLatestBlock = (Inr False, r2)"
    using assms(2,3,4) by (simp add: forkChanged_def Let_def)
  have c: "fetchAllPreviousBlocksIfNecessary cf cs r = Some (None, [], cs, r2)"
    by (simp add: fetchAllPreviousBlocksIfNecessary_def Let_def assms(1) g f)
  have "pollTick cf tickerTime (cs, r, 0) = Some ([], cs, r2, 0)"
    by (simp add: pollTick_def c)
  with g f c show ?thesis by simp
qed

theorem unchanged_remote_no_repair_witness:
  "fetchAllPreviousBlocksIfNecessary (static_fetcher 100 spec_hashes) tracker_100 ()
     = Some (None, [], tracker_100, ())
   \<and> pollTick (static_fetcher 100 spec_hashes) 1000000000 (tracker_100, (), 0)
     = Some ([], tracker_100, (), 0)"
proof -
  let ?same = "static_fetcher 100 spec_hashes"
  have a: "fetchLatestBlockNum ?same () = (Inr 100, ())" by code_simp
  have b: "(100 :: int64) = GetLatestBlockNum tracker_100" by code_simp
  have c: "fetchBlockHashByNum ?same tracker_100 () 100 = (Inr ''h100'', ())" by code_simp
  have d: "''h100'' = Hash (getLatestBlockUnsafe tracker_100)" by code_simp
  from unchanged_remote_no_repair [OF a b c d, of 1000000000]
  show ?thesis by simp
qed

section \<open>The backoff of the poll loop\<close>

lemma sint_BACKOFF_MAX_TIME: "sint BACKOFF_MAX_TIME = 600000000000"
  by (simp add: BACKOFF_MAX_TIME_def)

lemma sint_pow2: "k \<le> 10 \<Longrightarrow> sint (push_bit k 1 :: int64) = 2 ^ k"
proof -
  assume k: "k \<le> 10"
  have "(2::int) ^ k \<le> 2 ^ 10" using k by (intro power_increasing) simp_all
  then have "(2::int) ^ k < 2 ^ 63" by simp
  moreover have "(push_bit k 1 :: int64) = word_of_int (2 ^ k)" by (simp add: push_bit_eq_mult)
  moreover have "- (2 ^ 63) \<le> (2 :: int) ^ k" by (rule order_trans [of _ 0]) simp_all
  ultimately show ?thesis using sint_in_range [of "2 ^ k"] by simp
qed

lemma clamp_fails: "unat (if (10 :: uint64) < n then 10 else n) = min (unat n) 10"
  by (auto simp: word_less_nat_alt min_def)

lemma exponentialBackoff_sint:
  assumes "- (2 ^ 63) \<le> sint baseTime * 2 ^ min (unat fails) 10"
    and "sint baseTime * 2 ^ min (unat fails) 10 < 2 ^ 63"
  shows "sint (exponentialBackoff baseTime fails)
           = min (sint baseTime * 2 ^ min (unat fails) 10) (sint BACKOFF_MAX_TIME)"
proof -
  define k where "k = min (unat fails) 10"
  define p :: int64 where "p = push_bit k 1"
  have p: "sint p = 2 ^ k" unfolding p_def by (rule sint_pow2) (simp add: k_def)
  have m: "sint (baseTime * p) = sint baseTime * 2 ^ k"
    using assms sint_mult_in_range [of baseTime p] by (simp only: p k_def)
  have e: "exponentialBackoff baseTime fails
             = (if BACKOFF_MAX_TIME <s baseTime * p then BACKOFF_MAX_TIME else baseTime * p)"
    unfolding exponentialBackoff_def Let_def clamp_fails p_def k_def ..
  show ?thesis
    unfolding e k_def [symmetric]
    by (simp add: m word_sless_alt min_def)
qed

lemma exponentialBackoff_positive:
  assumes "0 < sint baseTime" and "sint baseTime < 2 ^ 53"
  shows "sint (exponentialBackoff baseTime fails)
           = min (sint baseTime * 2 ^ min (unat fails) 10) (sint BACKOFF_MAX_TIME)"
    and "0 <s exponentialBackoff baseTime fails"
proof -
  let ?k = "min (unat fails) 10"
  have k: "(2 :: int) ^ ?k \<le> 2 ^ 10" by (intro power_increasing) simp_all
  have k0: "(0 :: int) < 2 ^ ?k" by simp
  have pos: "0 < sint baseTime * 2 ^ ?k" using assms(1) k0 by (rule mult_pos_pos)
  have "sint baseTime * 2 ^ ?k \<le> sint baseTime * 2 ^ 10"
    using assms(1) k by (intro mult_left_mono) simp_all
  also have "\<dots> < 2 ^ 53 * 2 ^ 10" using assms(2) by simp
  finally have hi: "sint baseTime * 2 ^ ?k < 2 ^ 63" by simp
  have lo: "- (2 ^ 63) \<le> sint baseTime * 2 ^ ?k" using pos by simp
  show e: "sint (exponentialBackoff baseTime fails)
           = min (sint baseTime * 2 ^ ?k) (sint BACKOFF_MAX_TIME)"
    using lo hi by (rule exponentialBackoff_sint)
  show "0 <s exponentialBackoff baseTime fails"
    using pos by (simp add: word_sless_alt e sint_BACKOFF_MAX_TIME)
qed

lemma pollTick_failure:
  assumes "fetchAllPreviousBlocksIfNecessary cf cs r = Some (Some err, calls, cs', r')"
    and "0 <s exponentialBackoff tickerTime (fetchFails + 1)"
  shows "pollTick cf tickerTime (cs, r, fetchFails)
           = Some (calls, cs'\<lparr>ticker := exponentialBackoff tickerTime (fetchFails + 1)\<rparr>, r',
                   fetchFails + 1)"
  using assms
  by (simp add: pollTick_def updateTicker_def NewTicker_def word_sle_eq word_sless_alt)

lemma pollTick_recovery:
  assumes "fetchAllPreviousBlocksIfNecessary cf cs r = Some (None, calls, cs', r')"
    and "fetchFails \<noteq> 0"
    and "0 <s exponentialBackoff tickerTime 0"
  shows "pollTick cf tickerTime (cs, r, fetchFails)
           = Some (calls, cs'\<lparr>ticker := exponentialBackoff tickerTime 0\<rparr>, r', 0)"
  using assms
  by (simp add: pollTick_def updateTicker_def NewTicker_def word_sle_eq word_sless_alt)


text \<open>
  Claim C8 says that the backoff is \<open>min (base * 2 ^ min n 10) (10 minutes)\<close> for every
  base duration and every failure count, and that the backoff with failure count 0 is the
  base. The second fails for a base above ten minutes, which the cap brings down to ten
  minutes; the first fails where the product leaves the range of \<open>int64\<close>: a base of
  \<open>2 ^ 53\<close> nanoseconds and ten failures give the smallest \<open>int64\<close>.
\<close>

theorem exponentialBackoff_overflow_and_cap_counterexample:
  "exponentialBackoff 660000000000 0 = 600000000000
   \<and> exponentialBackoff 660000000000 0 \<noteq> 660000000000
   \<and> sint (exponentialBackoff 9007199254740992 10) = - 9223372036854775808
   \<and> sint (exponentialBackoff 9007199254740992 10)
       \<noteq> min (9007199254740992 * 2 ^ min (unat (10 :: uint64)) 10) (sint BACKOFF_MAX_TIME)"
  by (simp add: exponentialBackoff_def BACKOFF_MAX_TIME_def Let_def)

text \<open>
  Claim C8, as amended. For every base duration and failure count \<open>n\<close> such that
  \<open>base * 2 ^ min n 10\<close> is in the range of \<open>int64\<close>, \<open>exponentialBackoff\<close> returns
  \<open>min (base * 2 ^ min n 10) (10 minutes)\<close>. For a positive base tick below \<open>2 ^ 53\<close>
  nanoseconds: two failing poll cycles in a row, from a failure count of 0, leave the
  ticker at \<open>min (base * 4) (10 minutes)\<close> and the count at 2; a cycle that succeeds
  after failures resets the count to 0 and the ticker to \<open>min base (10 minutes)\<close>, which
  is the base tick when the base is at most ten minutes.
\<close>

theorem backoff_of_the_poll_loop:
  "(- (2 ^ 63) \<le> sint baseTime * 2 ^ min (unat fails) 10
      \<and> sint baseTime * 2 ^ min (unat fails) 10 < 2 ^ 63
    \<longrightarrow> sint (exponentialBackoff baseTime fails)
          = min (sint baseTime * 2 ^ min (unat fails) 10) (sint BACKOFF_MAX_TIME))
   \<and> sint BACKOFF_MAX_TIME = 10 * 60 * 1000000000
   \<and> (0 < sint baseTime \<and> sint baseTime < 2 ^ 53
      \<and> fetchAllPreviousBlocksIfNecessary cf cs r = Some (Some err1, calls1, cs1, r1)
      \<and> fetchAllPreviousBlocksIfNecessary cf (cs1\<lparr>ticker := exponentialBackoff baseTime 1\<rparr>) r1
           = Some (Some err2, calls2, cs2, r2)
    \<longrightarrow> pollTick cf baseTime (cs, r, 0)
          = Some (calls1, cs1\<lparr>ticker := exponentialBackoff baseTime 1\<rparr>, r1, 1)
        \<and> pollTick cf baseTime (cs1\<lparr>ticker := exponentialBackoff baseTime 1\<rparr>, r1, 1)
          = Some (calls2, cs2\<lparr>ticker := exponentialBackoff baseTime 2\<rparr>, r2, 2)
        \<and> sint (exponentialBackoff baseTime 2) = min (sint baseTime * 4) (sint BACKOFF_MAX_TIME))
   \<and> (0 < sint baseTime \<and> sint baseTime < 2 ^ 53 \<and> fetchFails \<noteq> 0
      \<and> fetchAllPreviousBlocksIfNecessary cf cs r = Some (None, calls, cs', r')
    \<longrightarrow> pollTick cf baseTime (cs, r, fetchFails)
          = Some (calls, cs'\<lparr>ticker := exponentialBackoff baseTime 0\<rparr>, r', 0)
        \<and> sint (exponentialBackoff baseTime 0) = min (sint baseTime) (sint BACKOFF_MAX_TIME)
        \<and> (sint baseTime \<le> sint BACKOFF_MAX_TIME \<longrightarrow> exponentialBackoff baseTime 0 = baseTime))"
proof (intro conjI impI)
  assume "- (2 ^ 63) \<le> sint baseTime * 2 ^ min (unat fails) 10
      \<and> sint baseTime * 2 ^ min (unat fails) 10 < 2 ^ 63"
  then show "sint (exponentialBackoff baseTime fails)
          = min (sint baseTime * 2 ^ min (unat fails) 10) (sint BACKOFF_MAX_TIME)"
    using exponentialBackoff_sint [of baseTime fails] by blast
next
  show "sint BACKOFF_MAX_TIME = 10 * 60 * 1000000000"
    by (simp add: sint_BACKOFF_MAX_TIME)
next
  assume a: "0 < sint baseTime \<and> sint baseTime < 2 ^ 53
      \<and> fetchAllPreviousBlocksIfNecessary cf cs r = Some (Some err1, calls1, cs1, r1)
      \<and> fetchAllPreviousBlocksIfNecessary cf (cs1\<lparr>ticker := exponentialBackoff baseTime 1\<rparr>) r1
           = Some (Some err2, calls2, cs2, r2)"
  then have b: "0 < sint baseTime" "sint baseTime < 2 ^ 53" by simp_all
  note P = exponentialBackoff_positive [OF b]
  from a have c1: "fetchAllPreviousBlocksIfNecessary cf cs r = Some (Some err1, calls1, cs1, r1)"
    and c2: "fetchAllPreviousBlocksIfNecessary cf (cs1\<lparr>ticker := exponentialBackoff baseTime 1\<rparr>) r1
           = Some (Some err2, calls2, cs2, r2)"
    by simp_all
  from pollTick_failure [OF c1, of baseTime 0] P(2) [of 1]
  show "pollTick cf baseTime (cs, r, 0)
          = Some (calls1, cs1\<lparr>ticker := exponentialBackoff baseTime 1\<rparr>, r1, 1)"
    by simp
  from pollTick_failure [OF c2, of baseTime 1] P(2) [of 2]
  show "pollTick cf baseTime (cs1\<lparr>ticker := exponentialBackoff baseTime 1\<rparr>, r1, 1)
          = Some (calls2, cs2\<lparr>ticker := exponentialBackoff baseTime 2\<rparr>, r2, 2)"
    by simp
  from P(1) [of 2]
  show "sint (exponentialBackoff baseTime 2) = min (sint baseTime * 4) (sint BACKOFF_MAX_TIME)"
    by simp
next
  assume a: "0 < sint baseTime \<and> sint baseTime < 2 ^ 53 \<and> fetchFails \<noteq> 0
      \<and> fetchAllPreviousBlocksIfNecessary cf cs r = Some (None, calls, cs', r')"
  then have b: "0 < sint baseTime" "sint baseTime < 2 ^ 53" by simp_all
  note P = exponentialBackoff_positive [OF b]
  from a have c: "fetchAllPreviousBlocksIfNecessary cf cs r = Some (None, calls, cs', r')"
    and ff: "fetchFails \<noteq> 0" by simp_all
  from pollTick_recovery [OF c ff P(2)]
  show "pollTick cf baseTime (cs, r, fetchFails)
          = Some (calls, cs'\<lparr>ticker := exponentialBackoff baseTime 0\<rparr>, r', 0)" .
  from P(1) [of 0]
  show m: "sint (exponentialBackoff baseTime 0) = min (sint baseTime) (sint BACKOFF_MAX_TIME)"
    by simp
  assume "sint baseTime \<le> sint BACKOFF_MAX_TIME"
  with m have "sint (exponentialBackoff baseTime 0) = sint baseTime" by simp
  then show "exponentialBackoff baseTime 0 = baseTime" by (rule sint_inject64)
qed



theorem backoff_of_the_poll_loop_witness:
  "sint (exponentialBackoff 1000000000 12) = 600000000000
   \<and> pollTick failing_fetcher 1000000000 (tracker_100, (), 0)
       = Some ([], tracker_100\<lparr>ticker := 2000000000\<rparr>, (), 1)
   \<and> pollTick failing_fetcher 1000000000 (tracker_100\<lparr>ticker := 2000000000\<rparr>, (), 1)
       = Some ([], tracker_100\<lparr>ticker := 4000000000\<rparr>, (), 2)
   \<and> pollTick (static_fetcher 100 spec_hashes) 1000000000
         (tracker_100\<lparr>ticker := 4000000000\<rparr>, (), 2)
       = Some ([], tracker_100\<lparr>ticker := 1000000000\<rparr>, (), 0)"
proof -
  let ?down = "CouldNotFetchLatestBlockNum (FetcherError 0)"
  let ?same = "static_fetcher 100 spec_hashes"
  have r: "- (2 ^ 63) \<le> sint (1000000000 :: int64) * 2 ^ min (unat (12 :: uint64)) 10
           \<and> sint (1000000000 :: int64) * 2 ^ min (unat (12 :: uint64)) 10 < 2 ^ 63"
    by simp
  have b: "0 < sint (1000000000 :: int64) \<and> sint (1000000000 :: int64) < 2 ^ 53"
    by simp
  have e: "exponentialBackoff 1000000000 1 = 2000000000"
    "exponentialBackoff 1000000000 2 = 4000000000"
    "exponentialBackoff 1000000000 0 = 1000000000"
    by (simp_all add: exponentialBackoff_def BACKOFF_MAX_TIME_def Let_def)
  have f1: "fetchAllPreviousBlocksIfNecessary failing_fetcher tracker_100 ()
              = Some (Some ?down, [], tracker_100, ())"
    by code_simp
  have f2: "fetchAllPreviousBlocksIfNecessary failing_fetcher
              (tracker_100\<lparr>ticker := exponentialBackoff 1000000000 1\<rparr>) ()
              = Some (Some ?down, [], tracker_100\<lparr>ticker := 2000000000\<rparr>, ())"
    by code_simp
  have f3: "fetchAllPreviousBlocksIfNecessary ?same (tracker_100\<lparr>ticker := 4000000000\<rparr>) ()
              = Some (None, [], tracker_100\<lparr>ticker := 4000000000\<rparr>, ())"
    by code_simp
  have two: "(2 :: uint64) \<noteq> 0" by simp
  have m: "sint BACKOFF_MAX_TIME = 600000000000" by (simp add: BACKOFF_MAX_TIME_def)
  from backoff_of_the_poll_loop [of 1000000000 12 failing_fetcher tracker_100 "()" ?down "[]"
         tracker_100 "()" ?down "[]" "tracker_100\<lparr>ticker := 2000000000\<rparr>" "()"]
       backoff_of_the_poll_loop [of 1000000000 _ ?same "tracker_100\<lparr>ticker := 4000000000\<rparr>" "()"
         _ _ _ _ _ _ _ _ 2 "[]" "tracker_100\<lparr>ticker := 4000000000\<rparr>" "()"]
       r b e f1 f2 f3 two m
  show ?thesis by simp
qed

end
